theory Spec2Isabelle
  imports Main "HOL-Library.Multiset" "HOL-Library.Word" "HOL-Library.AList"
begin

unbundle bit_operations_syntax

section \<open>Strings\<close>

text \<open>
  A JavaScript string is the list of its UTF-16 code units, numbers below \<open>65536\<close>;
  \<open>str\<close> writes a string of ASCII characters.
\<close>

type_synonym jsString = "nat list"

definition str :: "string \<Rightarrow> jsString" where
  "str s = map of_char s"

text \<open>
  The code units that \<open>String.prototype.trim\<close> removes: the white space and the line
  terminators of ECMAScript (TAB, LF, VT, FF, CR, SP, NBSP, U+1680, U+2000 to U+200A,
  LS, PS, U+202F, U+205F, U+3000 and the byte order mark).
\<close>

definition whiteSpace :: "nat list" where
  "whiteSpace = [0x09, 0x0A, 0x0B, 0x0C, 0x0D, 0x20, 0xA0, 0x1680,
                 0x2000, 0x2001, 0x2002, 0x2003, 0x2004, 0x2005, 0x2006, 0x2007, 0x2008,
                 0x2009, 0x200A, 0x2028, 0x2029, 0x202F, 0x205F, 0x3000, 0xFEFF]"

definition isSpace :: "nat \<Rightarrow> bool" where
  "isSpace c = (c \<in> set whiteSpace)"

definition trim :: "jsString \<Rightarrow> jsString" where
  "trim s = rev (dropWhile isSpace (rev (dropWhile isSpace s)))"

text \<open>
  What the code takes from the platform. \<open>String.prototype.toLowerCase\<close> and
  \<open>toUpperCase\<close> follow the case tables of Unicode and are taken as given, as functions
  on strings (the upper case of one character can be two). \<open>Utils.generateUUID()\<close>
  (built on \<open>Math.random\<close>) and \<open>Date.now()\<close> in \<open>addAccount\<close> are taken as given
  too: the \<open>n\<close>-th account created receives \<open>generateUUID env n\<close> and the time stamp
  \<open>dateNow env n\<close>.
\<close>

record env =
  generateUUID :: "nat \<Rightarrow> jsString"
  dateNow :: "nat \<Rightarrow> int"
  toLowerCase :: "jsString \<Rightarrow> jsString"
  toUpperCase :: "jsString \<Rightarrow> jsString"

text \<open>\<open>Utils.normalizeEmail\<close>: \<open>email.toLowerCase().trim()\<close>.\<close>

definition normalizeEmail :: "env \<Rightarrow> jsString \<Rightarrow> jsString" where
  "normalizeEmail ev e = trim (toLowerCase ev e)"

text \<open>\<open>Utils.normalizeTOTP\<close>: \<open>totp.toUpperCase().trim()\<close>.\<close>

definition normalizeTOTP :: "env \<Rightarrow> jsString \<Rightarrow> jsString" where
  "normalizeTOTP ev t = trim (toUpperCase ev t)"

section \<open>The data store\<close>

text \<open>
  The object handed to \<open>addAccount\<close> and the elements of an import batch carry
  \<open>email\<close>, \<open>password\<close>, \<open>totp\<close>, \<open>extras\<close> and, optionally, \<open>tags\<close>. A missing
  \<open>tags\<close> or \<open>extras\<close> is read by the code as \<open>[]\<close> and a missing \<open>totp\<close> as the
  empty string, so these are the values the record holds in that case. A stored
  account extends that object with the fields \<open>addAccount\<close> adds.
\<close>

record accountData =
  email :: jsString
  password :: jsString
  totp :: jsString
  extras :: "jsString list"
  tags :: "jsString list"

record account = accountData +
  accId :: jsString
  completed :: bool
  favorite :: bool
  addedAt :: int
  lastUsed :: "int option"
  order :: int

record stats =
  added :: nat
  updated :: nat
  skipped :: nat

text \<open>The calls \<open>this.state.notify(event, data)\<close>, one constructor for each event name.\<close>

datatype event =
    AccountAdded account
  | AccountUpdated account
  | AccountDeleted account
  | AccountsReordered jsString int
  | AccountsImported stats

text \<open>
  The store: the array \<open>data.accounts\<close>, the number of \<open>autoSave()\<close> requests made so
  far, the notifications sent so far (oldest first), and the number of accounts created so
  far, which indexes \<open>generateUUID\<close> and \<open>dateNow\<close>.
\<close>

record store =
  accounts :: "account list"
  autoSaves :: nat
  notified :: "event list"
  created :: nat

definition autoSave :: "store \<Rightarrow> store" where
  "autoSave st = st\<lparr>autoSaves := Suc (autoSaves st)\<rparr>"

definition notify :: "event \<Rightarrow> store \<Rightarrow> store" where
  "notify e st = st\<lparr>notified := notified st @ [e]\<rparr>"

text \<open>\<open>Array.prototype.findIndex\<close>, with \<open>None\<close> for \<open>-1\<close>.\<close>

fun findIndex :: "('a \<Rightarrow> bool) \<Rightarrow> 'a list \<Rightarrow> nat option" where
  "findIndex P [] = None"
| "findIndex P (x # xs) =
     (if P x then Some 0 else map_option Suc (findIndex P xs))"

text \<open>\<open>getAccount(id)\<close>: \<open>accounts.find(acc => acc.id === id)\<close>.\<close>

definition getAccount :: "store \<Rightarrow> jsString \<Rightarrow> account option" where
  "getAccount st i = find (\<lambda>acc. accId acc = i) (accounts st)"

text \<open>
  \<open>addAccount(accountData)\<close>. A string is truthy when it is not empty. The new account
  is pushed at the end with \<open>order\<close> the current length of the array.
\<close>

definition addAccount :: "env \<Rightarrow> store \<Rightarrow> accountData \<Rightarrow> account \<times> store" where
  "addAccount ev st accountData =
     (let acc = \<lparr> email = normalizeEmail ev (email accountData),
                  password = password accountData,
                  totp = (if totp accountData \<noteq> [] then normalizeTOTP ev (totp accountData) else []),
                  extras = extras accountData,
                  tags = tags accountData,
                  accId = generateUUID ev (created st),
                  completed = False,
                  favorite = False,
                  addedAt = dateNow ev (created st),
                  lastUsed = None,
                  order = int (length (accounts st)) \<rparr>
      in (acc, notify (AccountAdded acc)
                 (autoSave (st\<lparr>accounts := accounts st @ [acc], created := Suc (created st)\<rparr>))))"

text \<open>
  The \<open>updates\<close> object of \<open>updateAccount\<close>: each key is either absent (\<open>None\<close>) or
  carries a value.
\<close>

record updates =
  updEmail :: "jsString option"
  updPassword :: "jsString option"
  updTotp :: "jsString option"
  updExtras :: "jsString list option"
  updTags :: "jsString list option"
  updCompleted :: "bool option"
  updFavorite :: "bool option"

definition orElse :: "'a option \<Rightarrow> 'a \<Rightarrow> 'a" where
  "orElse u v = (case u of None \<Rightarrow> v | Some w \<Rightarrow> w)"

text \<open>
  The normalisation \<open>updateAccount\<close> applies to \<open>updates\<close> before the spread: a truthy
  \<open>email\<close> is normalised, a \<open>totp\<close> that is not \<open>undefined\<close> is normalised when truthy
  and becomes \<open>''\<close> otherwise.
\<close>

definition normalizeUpdates :: "env \<Rightarrow> updates \<Rightarrow> updates" where
  "normalizeUpdates ev u =
     u\<lparr> updEmail := (case updEmail u of
                        Some e \<Rightarrow> if e \<noteq> [] then Some (normalizeEmail ev e) else Some e
                      | None \<Rightarrow> None),
        updTotp := (case updTotp u of
                        Some t \<Rightarrow> if t \<noteq> [] then Some (normalizeTOTP ev t) else Some []
                      | None \<Rightarrow> None) \<rparr>"

text \<open>The spread \<open>{ ...account, ...updates }\<close>.\<close>

definition spread :: "account \<Rightarrow> updates \<Rightarrow> account" where
  "spread acc u =
     acc\<lparr> email := orElse (updEmail u) (email acc),
          password := orElse (updPassword u) (password acc),
          totp := orElse (updTotp u) (totp acc),
          extras := orElse (updExtras u) (extras acc),
          tags := orElse (updTags u) (tags acc),
          completed := orElse (updCompleted u) (completed acc),
          favorite := orElse (updFavorite u) (favorite acc) \<rparr>"

definition updateAccount :: "env \<Rightarrow> store \<Rightarrow> jsString \<Rightarrow> updates \<Rightarrow> bool \<times> store" where
  "updateAccount ev st i u =
     (case findIndex (\<lambda>acc. accId acc = i) (accounts st) of
        None \<Rightarrow> (False, st)
      | Some index \<Rightarrow>
          (let acc' = spread (accounts st ! index) (normalizeUpdates ev u)
           in (True, notify (AccountUpdated acc')
                       (autoSave (st\<lparr>accounts := (accounts st)[index := acc']\<rparr>)))))"

text \<open>\<open>deleteAccount(id)\<close>: \<open>accounts.splice(index, 1)\<close> removes the element at \<open>index\<close>.\<close>

definition deleteAccount :: "store \<Rightarrow> jsString \<Rightarrow> bool \<times> store" where
  "deleteAccount st i =
     (case findIndex (\<lambda>acc. accId acc = i) (accounts st) of
        None \<Rightarrow> (False, st)
      | Some index \<Rightarrow>
          (let deleted = accounts st ! index
           in (True, notify (AccountDeleted deleted)
                       (autoSave (st\<lparr>accounts := take index (accounts st) @ drop (Suc index) (accounts st)\<rparr>)))))"

text \<open>
  \<open>reorderAccounts(accountId, newOrder)\<close>. The account found by \<open>getAccount\<close> (the first one
  with that id) takes \<open>newOrder\<close>; the \<open>forEach\<close> then skips every account with that id and
  shifts the others.
\<close>

definition shiftOrder :: "int \<Rightarrow> int \<Rightarrow> account \<Rightarrow> account" where
  "shiftOrder oldOrder newOrder acc =
     (if oldOrder < newOrder
      then (if order acc > oldOrder \<and> order acc \<le> newOrder then acc\<lparr>order := order acc - 1\<rparr> else acc)
      else (if order acc \<ge> newOrder \<and> order acc < oldOrder then acc\<lparr>order := order acc + 1\<rparr> else acc))"

definition reorderAccounts :: "store \<Rightarrow> jsString \<Rightarrow> int \<Rightarrow> bool \<times> store" where
  "reorderAccounts st accountId newOrder =
     (case findIndex (\<lambda>acc. accId acc = accountId) (accounts st) of
        None \<Rightarrow> (False, st)
      | Some index \<Rightarrow>
          (let oldOrder = order (accounts st ! index);
               moved = (accounts st)[index := (accounts st ! index)\<lparr>order := newOrder\<rparr>];
               shifted = map (\<lambda>acc. if accId acc = accountId then acc
                                     else shiftOrder oldOrder newOrder acc) moved
           in (True, notify (AccountsReordered accountId newOrder)
                       (autoSave (st\<lparr>accounts := shifted\<rparr>)))))"

text \<open>
  The invariant of the data model: the \<open>order\<close> values of the accounts are the numbers
  \<open>0, ..., count - 1\<close>, each exactly once.
\<close>

definition denseOrders :: "account list \<Rightarrow> bool" where
  "denseOrders accs = (mset (map order accs) = mset (map int [0..<length accs]))"

section \<open>Import with merging\<close>

text \<open>
  \<open>x.totp && x.totp.trim()\<close> read as a condition: the string is not empty and not empty
  after \<open>trim\<close>.
\<close>

definition hasTOTP :: "jsString \<Rightarrow> bool" where
  "hasTOTP t = (t \<noteq> [] \<and> trim t \<noteq> [])"

text \<open>
  The search of \<open>importAccounts\<close> for a duplicate: same normalised email, same password.
\<close>

definition matches :: "env \<Rightarrow> 'a accountData_scheme \<Rightarrow> 'b accountData_scheme \<Rightarrow> bool" where
  "matches ev newAcc acc =
     (normalizeEmail ev (email acc) = normalizeEmail ev (email newAcc) \<and>
      password acc = password newAcc)"

text \<open>
  The loop \<open>newAcc.extras.forEach(extra => { if (!existing.extras.includes(extra)) { push; updated = true } })\<close>:
  the extras of the existing account and the flag \<open>updated\<close>, threaded through the
  candidate's extras.
\<close>

fun mergeExtras :: "jsString list \<Rightarrow> bool \<Rightarrow> jsString list \<Rightarrow> jsString list \<times> bool" where
  "mergeExtras ex upd [] = (ex, upd)"
| "mergeExtras ex upd (extra # rest) =
     (if extra \<in> set ex then mergeExtras ex upd rest
      else mergeExtras (ex @ [extra]) True rest)"

text \<open>
  The branches "same TOTP" and "both without TOTP": merge the extras into the account at
  \<open>index\<close>, then count the candidate as updated (with a notification) or as skipped.
\<close>

definition mergeInto :: "store \<Rightarrow> stats \<Rightarrow> nat \<Rightarrow> accountData \<Rightarrow> store \<times> stats" where
  "mergeInto st s index newAcc =
     (let existing = accounts st ! index;
          (ex, upd) = mergeExtras (extras existing) False (extras newAcc);
          existing' = existing\<lparr>extras := ex\<rparr>;
          st' = st\<lparr>accounts := (accounts st)[index := existing']\<rparr>
      in if upd then (notify (AccountUpdated existing') st', s\<lparr>updated := Suc (updated s)\<rparr>)
         else (st', s\<lparr>skipped := Suc (skipped s)\<rparr>))"

text \<open>The body of \<open>accounts.forEach(newAcc => ...)\<close> in \<open>importAccounts\<close>.\<close>

definition importOne :: "env \<Rightarrow> store \<times> stats \<Rightarrow> accountData \<Rightarrow> store \<times> stats" where
  "importOne ev state newAcc =
     (let (st, s) = state in
      case findIndex (matches ev newAcc) (accounts st) of
        None \<Rightarrow> (snd (addAccount ev st newAcc), s\<lparr>added := Suc (added s)\<rparr>)
      | Some index \<Rightarrow>
          (let existing = accounts st ! index;
               existingHasTOTP = hasTOTP (totp existing);
               newHasTOTP = hasTOTP (totp newAcc)
           in if existingHasTOTP \<and> \<not> newHasTOTP then
                (st, s\<lparr>skipped := Suc (skipped s)\<rparr>)
              else if \<not> existingHasTOTP \<and> newHasTOTP then
                (let (ex, upd) = mergeExtras (extras existing) False (extras newAcc);
                     existing' = existing\<lparr>totp := totp newAcc, extras := ex\<rparr>
                 in (notify (AccountUpdated existing')
                       (st\<lparr>accounts := (accounts st)[index := existing']\<rparr>),
                     s\<lparr>updated := Suc (updated s)\<rparr>))
              else if existingHasTOTP \<and> newHasTOTP then
                (if totp existing = totp newAcc then mergeInto st s index newAcc
                 else (snd (addAccount ev st newAcc), s\<lparr>added := Suc (added s)\<rparr>))
              else mergeInto st s index newAcc))"

definition importAccounts :: "env \<Rightarrow> store \<Rightarrow> accountData list \<Rightarrow> stats \<times> store" where
  "importAccounts ev st batch =
     (let (st', s) = foldl (importOne ev) (st, \<lparr>added = 0, updated = 0, skipped = 0\<rparr>) batch
      in (s, notify (AccountsImported s) (autoSave st')))"

text \<open>
  Conditions on a batch and a store used below. A batch has its emails in normal form when
  normalising the normalised email of a candidate changes nothing, as it is with the
  case tables of Unicode. Its TOTPs are in stored form when each is the empty string or is
  left as it is by \<open>normalizeTOTP\<close>. A batch agrees with a list of records when no
  candidate meets a record with the same email and password that carries another TOTP.
\<close>

definition emailsNormal :: "env \<Rightarrow> accountData list \<Rightarrow> bool" where
  "emailsNormal ev batch =
     (\<forall>c \<in> set batch.
        normalizeEmail ev (normalizeEmail ev (email c)) = normalizeEmail ev (email c))"

definition totpStored :: "env \<Rightarrow> accountData list \<Rightarrow> bool" where
  "totpStored ev batch = (\<forall>c \<in> set batch. totp c \<noteq> [] \<longrightarrow> normalizeTOTP ev (totp c) = totp c)"

definition agrees :: "env \<Rightarrow> accountData list \<Rightarrow> 'a accountData_scheme list \<Rightarrow> bool" where
  "agrees ev batch recs =
     (\<forall>c \<in> set batch. \<forall>a \<in> set recs.
        matches ev c a \<and> hasTOTP (totp a) \<and> hasTOTP (totp c) \<longrightarrow> totp a = totp c)"

section \<open>TOTP generation\<close>

type_synonym byte = "8 word"

text \<open>\<open>new Error('Invalid base32 character')\<close>, the one exception the decoder throws.\<close>

datatype error = InvalidBase32Character

definition alphabet :: jsString where
  "alphabet = str ''ABCDEFGHIJKLMNOPQRSTUVWXYZ234567''"

text \<open>
  \<open>String.prototype.indexOf\<close>: the first position at which the searched string occurs
  as a substring, with \<open>None\<close> for \<open>-1\<close>.
\<close>

fun indexOf :: "jsString \<Rightarrow> jsString \<Rightarrow> nat option" where
  "indexOf [] search = (if search = [] then Some 0 else None)"
| "indexOf (c # cs) search =
     (if take (length search) (c # cs) = search then Some 0
      else map_option Suc (indexOf cs search))"

text \<open>
  \<open>base32Decode\<close>: the loop over the code units, with the state \<open>bits\<close>, \<open>value\<close> (a
  32-bit integer under \<open><<\<close>, \<open>|\<close> and \<open>>>>\<close>) and the bytes written so far.
  \<open>char\<close> is \<open>encoded.charAt(i).toUpperCase()\<close>, a string, which is compared with
  \<open>'='\<close> and searched in the alphabet. The output array has room for
  \<open>floor(length * 5 / 8)\<close> bytes, which the loop never exceeds, and \<open>slice(0, index)\<close>
  returns the bytes written.
\<close>

fun base32Loop :: "env \<Rightarrow> nat \<Rightarrow> 32 word \<Rightarrow> byte list \<Rightarrow> jsString \<Rightarrow> error + byte list" where
  "base32Loop ev bits val out [] = Inr out"
| "base32Loop ev bits val out (c # cs) =
     (let char = toUpperCase ev [c] in
      if char = str ''='' then Inr out
      else case indexOf alphabet char of
             None \<Rightarrow> Inl InvalidBase32Character
           | Some charIndex \<Rightarrow>
               (let val' = push_bit 5 val OR of_nat charIndex;
                    bits' = bits + 5
                in if bits' \<ge> 8
                   then base32Loop ev (bits' - 8) val' (out @ [ucast (drop_bit (bits' - 8) val' AND 255)]) cs
                   else base32Loop ev bits' val' out cs))"

definition base32Decode :: "env \<Rightarrow> jsString \<Rightarrow> error + byte list" where
  "base32Decode ev encoded = base32Loop ev 0 0 [] encoded"

text \<open>
  \<open>getCurrentTimeWindow\<close>: \<open>Math.floor(Date.now() / 1000 / 30)\<close>, with \<open>Date.now()\<close> an
  integer number of milliseconds.
\<close>

definition getCurrentTimeWindow :: "int \<Rightarrow> int" where
  "getCurrentTimeWindow now = now div 1000 div 30"

text \<open>
  The 8-byte buffer after \<open>timeView.setUint32(4, currentWindow, false)\<close>: four zero
  bytes, then the window reduced modulo \<open>2^32\<close>, most significant byte first.
\<close>

definition timeBuffer :: "int \<Rightarrow> byte list" where
  "timeBuffer currentWindow =
     (let w = (word_of_int currentWindow :: 32 word)
      in [0, 0, 0, 0, ucast (drop_bit 24 w), ucast (drop_bit 16 w), ucast (drop_bit 8 w), ucast w])"

text \<open>
  Reading \<open>hmac[i]\<close> inside a bit operation: the byte as a 32-bit integer, and \<open>0\<close> for
  \<open>undefined\<close> when \<open>i\<close> is out of range.
\<close>

definition byteAt :: "byte list \<Rightarrow> nat \<Rightarrow> 32 word" where
  "byteAt h i = (if i < length h then ucast (h ! i) else 0)"

definition digitChar :: "nat \<Rightarrow> nat" where
  "digitChar d = str ''0123456789'' ! d"

fun digitsOf :: "nat \<Rightarrow> jsString" where
  "digitsOf n = (if n < 10 then [digitChar n] else digitsOf (n div 10) @ [digitChar (n mod 10)])"

declare digitsOf.simps [simp del]

text \<open>\<open>Number.prototype.toString()\<close> on an integer.\<close>

definition numberToString :: "int \<Rightarrow> jsString" where
  "numberToString n = (if n < 0 then str ''-'' @ digitsOf (nat (- n)) else digitsOf (nat n))"

definition padStart :: "nat \<Rightarrow> nat \<Rightarrow> jsString \<Rightarrow> jsString" where
  "padStart n c s = replicate (n - length s) c @ s"

text \<open>The remainder \<open>%\<close> of JavaScript: the sign follows the dividend.\<close>

definition jsRem :: "int \<Rightarrow> int \<Rightarrow> int" where
  "jsRem a b = sgn a * (\<bar>a\<bar> mod \<bar>b\<bar>)"

text \<open>
  From the digest to the code: \<open>offset\<close>, the four masked and shifted bytes joined with
  \<open>|\<close> as a signed 32-bit integer, \<open>% 1000000\<close>, \<open>toString().padStart(6, '0')\<close>.
\<close>

definition totpCode :: "byte list \<Rightarrow> jsString" where
  "totpCode hmac =
     (let offset = unat (byteAt hmac (length hmac - 1) AND 0xf);
          code = push_bit 24 (byteAt hmac offset AND 0x7f)
                 OR push_bit 16 (byteAt hmac (offset + 1) AND 0xff)
                 OR push_bit 8 (byteAt hmac (offset + 2) AND 0xff)
                 OR (byteAt hmac (offset + 3) AND 0xff)
      in padStart 6 (of_char CHR ''0'') (numberToString (jsRem (sint code) 1000000)))"

record cacheEntry =
  code :: jsString
  timeWindow :: int

text \<open>
  The cache is a \<open>Map\<close> from secret to entry: an association list in insertion order.
  \<open>Map.set\<close> replaces the value of a key that is present and appends a new key
  (\<^const>\<open>AList.update\<close>), \<open>Map.get\<close> is \<^const>\<open>map_of\<close>, and \<open>size\<close> is the length, the
  keys of the list being distinct.
\<close>

type_synonym cache = "(jsString \<times> cacheEntry) list"

definition MAX_CACHE_SIZE :: nat where
  "MAX_CACHE_SIZE = 100"

text \<open>\<open>aggressiveCleanCache\<close>, at the clock reading \<open>now\<close>.\<close>

definition aggressiveCleanCache :: "int \<Rightarrow> cache \<Rightarrow> cache" where
  "aggressiveCleanCache now cache =
     (let currentWindow = getCurrentTimeWindow now;
          kept = filter (\<lambda>(secret, data). timeWindow data = currentWindow) cache
      in if length kept > MAX_CACHE_SIZE then [] else kept)"

text \<open>
  \<open>generate(secret)\<close>. The HMAC-SHA1 of the Web Crypto API is a parameter: \<open>hmacSha1 key message\<close>
  is the digest, or \<open>None\<close> when the promise is rejected, as \<open>importKey\<close> does for a key
  of no bytes. The clock is read twice: \<open>now\<close>
  at the start of the call and \<open>now'\<close> by \<open>aggressiveCleanCache\<close> after the digest has
  arrived. Every exception inside the \<open>try\<close> block ends in the result \<open>'Error'\<close>. The
  result is the returned string and the cache after the call; the call is taken alone, no
  other call changing the cache while the digest is awaited.
\<close>

definition generate ::
  "env \<Rightarrow> (byte list \<Rightarrow> byte list \<Rightarrow> byte list option) \<Rightarrow> int \<Rightarrow> int \<Rightarrow> jsString \<Rightarrow> cache \<Rightarrow>
     jsString \<times> cache" where
  "generate ev hmacSha1 now now' secret cache =
     (let currentWindow = getCurrentTimeWindow now;
          cached = map_of cache secret
      in if cached \<noteq> None \<and> timeWindow (the cached) = currentWindow then (code (the cached), cache)
         else case base32Decode ev secret of
                Inl e \<Rightarrow> (str ''Error'', cache)
              | Inr key \<Rightarrow>
                  (case hmacSha1 key (timeBuffer currentWindow) of
                     None \<Rightarrow> (str ''Error'', cache)
                   | Some hmac \<Rightarrow>
                       (let totp_code = totpCode hmac;
                            cache' = AList.update secret \<lparr>code = totp_code, timeWindow = currentWindow\<rparr> cache
                        in (totp_code,
                            if length cache' > MAX_CACHE_SIZE then aggressiveCleanCache now' cache'
                            else cache'))))"

text \<open>
  A cache is sound for the HMAC when every entry holds the code that \<open>generate\<close> computes
  for its secret and window. The empty cache is sound and \<open>generate\<close> only stores such
  entries.
\<close>

definition entryOk ::
  "env \<Rightarrow> (byte list \<Rightarrow> byte list \<Rightarrow> byte list option) \<Rightarrow> jsString \<times> cacheEntry \<Rightarrow> bool" where
  "entryOk ev hmacSha1 e =
     (case base32Decode ev (fst e) of
        Inl err \<Rightarrow> False
      | Inr key \<Rightarrow>
          (case hmacSha1 key (timeBuffer (timeWindow (snd e))) of
             None \<Rightarrow> False
           | Some hmac \<Rightarrow> code (snd e) = totpCode hmac))"

definition cacheOk :: "env \<Rightarrow> (byte list \<Rightarrow> byte list \<Rightarrow> byte list option) \<Rightarrow> cache \<Rightarrow> bool" where
  "cacheOk ev hmacSha1 cache = list_all (entryOk ev hmacSha1) cache"

text \<open>
  The algorithm in the words of the specification (RFC 4226): the counter is the window as
  eight bytes, most significant first; the offset is the low nibble of byte 19 of the
  digest; the value is the four bytes at the offset as a number, the top byte reduced to
  seven bits; the code is the value modulo one million as six decimal digits.
\<close>

definition spec_counter :: "nat \<Rightarrow> byte list" where
  "spec_counter w = map (\<lambda>i. of_nat (w div 256 ^ (7 - i))) [0..<8]"

definition spec_truncate :: "byte list \<Rightarrow> nat" where
  "spec_truncate digest =
     (let offset = unat (digest ! 19) mod 16
      in (unat (digest ! offset) mod 128) * 2 ^ 24 + unat (digest ! (offset + 1)) * 2 ^ 16
         + unat (digest ! (offset + 2)) * 2 ^ 8 + unat (digest ! (offset + 3)))"

definition spec_sixDigits :: "nat \<Rightarrow> jsString" where
  "spec_sixDigits n = map (\<lambda>i. digitChar (n div 10 ^ (5 - i) mod 10)) [0..<6]"

definition spec_code :: "byte list \<Rightarrow> jsString" where
  "spec_code digest = spec_sixDigits (spec_truncate digest mod 1000000)"

section \<open>Delimiter detection\<close>

text \<open>
  \<open>String.prototype.split\<close> with a string separator: the parts between the occurrences
  of the separator, found from left to right; an empty separator splits into single
  characters.
\<close>

function splitFrom :: "jsString \<Rightarrow> jsString \<Rightarrow> jsString \<Rightarrow> jsString list" where
  "splitFrom sep cur [] = [cur]"
| "splitFrom sep cur (c # cs) =
     (if sep \<noteq> [] \<and> take (length sep) (c # cs) = sep
      then cur # splitFrom sep [] (drop (length sep) (c # cs))
      else splitFrom sep (cur @ [c]) cs)"
  by pat_completeness auto
termination
  by (relation "measure (\<lambda>(sep, cur, s). length s)") auto

definition split :: "jsString \<Rightarrow> jsString \<Rightarrow> jsString list" where
  "split sep s = (if sep = [] then map (\<lambda>c. [c]) s else splitFrom sep [] s)"

definition startsWith :: "jsString \<Rightarrow> jsString \<Rightarrow> bool" where
  "startsWith s p = (take (length p) s = p)"

definition delimiters :: "jsString list" where
  "delimiters = [str ''|'', str '':'', str '';'', str '';;;'', str '';;'', [0x09], str '','']"

text \<open>The first three lines that are not blank and do not start with \<open>#\<close>.\<close>

definition previewLines :: "jsString \<Rightarrow> jsString list" where
  "previewLines content =
     take 3 (filter (\<lambda>l. trim l \<noteq> [] \<and> \<not> startsWith l (str ''#'')) (split [0x0A] content))"

definition score :: "jsString list \<Rightarrow> jsString \<Rightarrow> nat" where
  "score lines delim = length (filter (\<lambda>line. length (split delim line) \<ge> 3) lines)"

text \<open>
  \<open>detectDelimiter\<close>. The keys of \<open>scores\<close> are distinct strings, none of them an array
  index, so \<open>Object.entries\<close> lists them in the order of \<open>delimiters\<close>; the sort with
  the comparator \<open>b[1] - a[1]\<close> is stable, as \<^const>\<open>sort_key\<close> is.
\<close>

definition detectDelimiter :: "jsString \<Rightarrow> jsString option" where
  "detectDelimiter content =
     (let lines = previewLines content
      in if lines = [] then None
         else (let scores = map (\<lambda>delim. (delim, score lines delim)) delimiters
               in case sort_key (\<lambda>e. - int (snd e)) scores of
                    [] \<Rightarrow> None
                  | best # rest \<Rightarrow> if snd best > 0 then Some (fst best) else None))"

section \<open>Auxiliary definitions and example data\<close>

text \<open>The effect of a move from \<open>oldOrder\<close> to \<open>newOrder\<close> on one order value.\<close>

definition moveOrder :: "int \<Rightarrow> int \<Rightarrow> int \<Rightarrow> int" where
  "moveOrder oldOrder newOrder x =
     (if x = oldOrder then newOrder
      else if oldOrder < newOrder then (if oldOrder < x \<and> x \<le> newOrder then x - 1 else x)
      else (if newOrder \<le> x \<and> x < oldOrder then x + 1 else x))"

definition exampleAccount :: "jsString \<Rightarrow> jsString \<Rightarrow> int \<Rightarrow> account" where
  "exampleAccount i e k =
     \<lparr> email = e, password = str ''pw'', totp = [], extras = [], tags = [],
       accId = i, completed = False, favorite = False, addedAt = 0,
       lastUsed = None, order = k \<rparr>"

definition exampleStore :: store where
  "exampleStore =
     \<lparr> accounts = [exampleAccount (str ''id-a'') (str ''a@x.com'') 0,
                   exampleAccount (str ''id-b'') (str ''b@x.com'') 1,
                   exampleAccount (str ''id-c'') (str ''c@x.com'') 2],
       autoSaves = 0, notified = [], created = 3 \<rparr>"

definition exampleUpdates :: updates where
  "exampleUpdates =
     \<lparr> updEmail = Some (str ''Z@X.com''), updPassword = Some (str ''pw2''), updTotp = Some [],
       updExtras = Some [], updTags = None, updCompleted = None, updFavorite = None \<rparr>"

text \<open>
  The platform of the examples. Its case mappings are the rows of the Unicode tables for
  the ASCII letters and for the ligature U+FB06, whose upper case is the two letters
  \<open>ST\<close>; the strings of the examples hold no other cased character, so on them the two
  functions are \<open>String.prototype.toLowerCase\<close> and \<open>toUpperCase\<close>.
\<close>

definition lowerUnit :: "nat \<Rightarrow> nat" where
  "lowerUnit c = (if 0x41 \<le> c \<and> c \<le> 0x5A then c + 0x20 else c)"

definition upperUnit :: "nat \<Rightarrow> jsString" where
  "upperUnit c =
     (if 0x61 \<le> c \<and> c \<le> 0x7A then [c - 0x20]
      else if c = 0xFB06 then str ''ST''
      else [c])"

definition exampleEnv :: env where
  "exampleEnv =
     \<lparr> generateUUID = (\<lambda>n. str ''uuid-'' @ digitsOf n),
       dateNow = (\<lambda>n. 1700000000000 + int n),
       toLowerCase = map lowerUnit,
       toUpperCase = (\<lambda>s. concat (map upperUnit s)) \<rparr>"

definition emptyStore :: store where
  "emptyStore = \<lparr> accounts = [], autoSaves = 0, notified = [], created = 0 \<rparr>"

definition secretA :: jsString where
  "secretA = str ''JBSWY3DPEHPK3PXPJBSWY3DPEHPK3PXP''"

definition secretB :: jsString where
  "secretB = str ''GEZDGNBVGY3TQOJQGEZDGNBVGY3TQOJQ''"

definition candidate :: "jsString \<Rightarrow> jsString \<Rightarrow> jsString list \<Rightarrow> accountData" where
  "candidate e t ex = \<lparr> email = e, password = str ''pw'', totp = t, extras = ex, tags = [] \<rparr>"

definition totpStore :: store where
  "totpStore =
     \<lparr> accounts = [(exampleAccount (str ''id-a'') (str ''a@x.com'') 0)\<lparr>totp := secretA\<rparr>],
       autoSaves = 0, notified = [], created = 1 \<rparr>"

definition conflictingBatch :: "accountData list" where
  "conflictingBatch = [candidate (str ''a@x.com'') secretA [], candidate (str ''a@x.com'') secretB []]"

definition lowerCaseCandidate :: accountData where
  "lowerCaseCandidate =
     candidate (str ''a@x.com'') (str ''jbswy3dpehpk3pxpjbswy3dpehpk3pxp'') [str ''note'']"

text \<open>A candidate whose TOTP is a no-break space and a space, and whose email is in upper case.\<close>

definition blankTotpCandidate :: accountData where
  "blankTotpCandidate = candidate (str '' A@X.com'') [0xA0, 0x20] [str ''note'']"

definition exampleBatch :: "accountData list" where
  "exampleBatch =
     [candidate (str ''A@x.com '') secretA [str ''note''], candidate (str ''new@x.com'') [] []]"

text \<open>
  Rows of HMAC-SHA1. The first two are test vectors of RFC 4226, appendix D: the key is the
  ASCII string \<open>12345678901234567890\<close> (in Base32 the string \<open>secretB\<close>), the digests
  are those of the counters 0 and 1. The third is the digest of the key \<open>1234567890\<close> and
  the counter 0. \<open>exampleHmac\<close> is HMAC-SHA1 of the Web Crypto API on these three inputs
  and on the key of no bytes, which \<open>importKey\<close> rejects; its value \<open>None\<close> at other
  inputs is not used.
\<close>

definition rfcKey :: "byte list" where
  "rfcKey = [0x31, 0x32, 0x33, 0x34, 0x35, 0x36, 0x37, 0x38, 0x39, 0x30,
             0x31, 0x32, 0x33, 0x34, 0x35, 0x36, 0x37, 0x38, 0x39, 0x30]"

definition rfcDigest0 :: "byte list" where
  "rfcDigest0 = [0xcc, 0x93, 0xcf, 0x18, 0x50, 0x8d, 0x94, 0x93, 0x4c, 0x64,
                 0xb6, 0x5d, 0x8b, 0xa7, 0x66, 0x7f, 0xb7, 0xcd, 0xe4, 0xb0]"

definition rfcDigest1 :: "byte list" where
  "rfcDigest1 = [0x75, 0xa4, 0x8a, 0x19, 0xd4, 0xcb, 0xe1, 0x00, 0x64, 0x4e,
                 0x8a, 0xc1, 0x39, 0x7e, 0xea, 0x74, 0x7a, 0x2d, 0x33, 0xab]"

definition shortKey :: "byte list" where
  "shortKey = [0x31, 0x32, 0x33, 0x34, 0x35, 0x36, 0x37, 0x38, 0x39, 0x30]"

definition shortDigest0 :: "byte list" where
  "shortDigest0 = [0x1f, 0xe7, 0xde, 0x1e, 0xea, 0xa8, 0x27, 0x45, 0xe2, 0xe2,
                   0x21, 0xcd, 0xe2, 0xf1, 0x54, 0x20, 0xcb, 0x88, 0xf1, 0x66]"

definition exampleHmac :: "byte list \<Rightarrow> byte list \<Rightarrow> byte list option" where
  "exampleHmac key message =
     (if key = rfcKey \<and> message = [0, 0, 0, 0, 0, 0, 0, 0] then Some rfcDigest0
      else if key = rfcKey \<and> message = [0, 0, 0, 0, 0, 0, 0, 1] then Some rfcDigest1
      else if key = shortKey \<and> message = [0, 0, 0, 0, 0, 0, 0, 0] then Some shortDigest0
      else None)"

text \<open>
  Two caches of 100 entries under the keys \<open>0\<close> to \<open>99\<close>: one of window 0, one of
  window 1.
\<close>

definition filledCache :: "int \<Rightarrow> cache" where
  "filledCache w = map (\<lambda>i. (digitsOf i, \<lparr>code = str ''000000'', timeWindow = w\<rparr>)) [0..<100]"

definition invalidSecret :: jsString where
  "invalidSecret = str ''gezd1nbv''"

text \<open>A secret of sixteen Base32 characters followed by the ligature U+FB06.\<close>

definition ligatureSecret :: jsString where
  "ligatureSecret = str ''GEZDGNBVGY3TQOJQ'' @ [0xFB06]"

definition warmCache :: cache where
  "warmCache = [(secretB, \<lparr>code = str ''755224'', timeWindow = 0\<rparr>)]"

text \<open>
  A file preview: a comment line, a line with both \<open>:\<close> and \<open>|\<close>, a line that holds a
  no-break space only, and two more records.
\<close>

definition exampleContent :: jsString where
  "exampleContent =
     str ''# exported'' @ [0x0A] @ str ''a@x.com:pw:SECRET|note|more'' @ [0x0A] @ [0xA0, 0x0A]
       @ str ''b@x.com|pw'' @ [0x0A] @ str ''c@x.com|pw|x''"

section \<open>Properties of the store operations\<close>

subsection \<open>Searching\<close>

lemma findIndex_None: "findIndex P xs = None \<longleftrightarrow> (\<forall>x \<in> set xs. \<not> P x)"
  by (induction xs) auto

lemma findIndex_Some:
  "findIndex P xs = Some i \<Longrightarrow> i < length xs \<and> P (xs ! i) \<and> (\<forall>j < i. \<not> P (xs ! j))"
proof (induction xs arbitrary: i)
  case Nil
  then show ?case by simp
next
  case (Cons x xs)
  show ?case
  proof (cases "P x")
    case True
    with Cons.prems show ?thesis by simp
  next
    case False
    with Cons.prems obtain k where k: "findIndex P xs = Some k" "i = Suc k"
      by auto
    from Cons.IH [OF k(1)] False k(2) show ?thesis
      by (auto simp: nth_Cons split: nat.splits)
  qed
qed

lemma find_findIndex:
  "find P xs = Some a \<Longrightarrow> \<exists>i. findIndex P xs = Some i \<and> xs ! i = a"
  by (induction xs) (auto split: if_splits)

lemma findIndex_find:
  "findIndex P xs = Some i \<Longrightarrow> find P xs = Some (xs ! i)"
  by (induction xs arbitrary: i) (auto split: if_splits)

subsection \<open>Dense orders\<close>

lemma denseOrders_iff:
  "denseOrders accs \<longleftrightarrow>
     distinct (map order accs) \<and> set (map order accs) = {0..<int (length accs)}"
proof -
  have d: "distinct (map int [0..<length accs])"
    by (simp add: distinct_map)
  have s: "set (map int [0..<length accs]) = {0..<int (length accs)}"
    using image_int_atLeastLessThan [of 0 "length accs"] by simp
  show ?thesis
  proof
    assume "denseOrders accs"
    then have m: "mset (map order accs) = mset (map int [0..<length accs])"
      by (simp add: denseOrders_def)
    from mset_eq_imp_distinct_iff [OF m] d have "distinct (map order accs)" by simp
    moreover from mset_eq_setD [OF m] s have "set (map order accs) = {0..<int (length accs)}"
      by simp
    ultimately show "distinct (map order accs) \<and> set (map order accs) = {0..<int (length accs)}"
      by simp
  next
    assume a: "distinct (map order accs) \<and> set (map order accs) = {0..<int (length accs)}"
    then have "set (map order accs) = set (map int [0..<length accs])"
      using s by simp
    with a d have "mset (map order accs) = mset (map int [0..<length accs])"
      using set_eq_iff_mset_eq_distinct by blast
    then show "denseOrders accs" by (simp add: denseOrders_def)
  qed
qed

lemma set_remove_nth:
  assumes "distinct xs" and "i < length xs"
  shows "set (take i xs @ drop (Suc i) xs) = set xs - {xs ! i}"
proof -
  have xs: "xs = take i xs @ xs ! i # drop (Suc i) xs"
    using assms(2) by (rule id_take_nth_drop)
  with assms(1) have "distinct (take i xs @ xs ! i # drop (Suc i) xs)" by simp
  then have "xs ! i \<notin> set (take i xs @ drop (Suc i) xs)" by auto
  moreover have "set xs = insert (xs ! i) (set (take i xs @ drop (Suc i) xs))"
    by (subst xs) auto
  ultimately show ?thesis by auto
qed

lemma distinct_remove_nth:
  assumes "distinct xs"
  shows "distinct (take i xs @ drop (Suc i) xs)"
proof (cases "i < length xs")
  case True
  then have "xs = take i xs @ xs ! i # drop (Suc i) xs"
    by (rule id_take_nth_drop)
  with assms have "distinct (take i xs @ xs ! i # drop (Suc i) xs)" by simp
  then show ?thesis by auto
next
  case False
  with assms show ?thesis by simp
qed

lemmas example_defs = exampleStore_def exampleAccount_def str_def

lemma exampleStore_dense: "denseOrders (accounts exampleStore)"
  by (simp add: denseOrders_def example_defs upt_conv_Cons)

subsection \<open>Deleting an account\<close>

text \<open>
  Claim C1, as the code has it. \<open>deleteAccount\<close> removes the account found for the id and
  touches no other account: when the orders are the numbers \<open>0, ..., count - 1\<close> and the
  deleted account has order \<open>k\<close>, the remaining accounts keep their order values, no two
  of them share one, and the values are \<open>0, ..., count - 1\<close> without \<open>k\<close>. The orders
  above \<open>k\<close> are not decremented.
\<close>

theorem C1_delete_keeps_orders:
  assumes "denseOrders (accounts st)" and "getAccount st i = Some acc"
  shows "fst (deleteAccount st i) \<and>
         (\<exists>index < length (accounts st). accounts st ! index = acc \<and>
            accounts (snd (deleteAccount st i)) =
              take index (accounts st) @ drop (Suc index) (accounts st)) \<and>
         distinct (map order (accounts (snd (deleteAccount st i)))) \<and>
         set (map order (accounts (snd (deleteAccount st i)))) =
           {0..<int (length (accounts st))} - {order acc}"
proof -
  from assms(2) obtain index where
    ix: "findIndex (\<lambda>a. accId a = i) (accounts st) = Some index" "accounts st ! index = acc"
    unfolding getAccount_def by (blast dest: find_findIndex)
  from findIndex_Some [OF ix(1)] have lt: "index < length (accounts st)" by simp
  let ?rest = "take index (accounts st) @ drop (Suc index) (accounts st)"
  have del: "fst (deleteAccount st i)" "accounts (snd (deleteAccount st i)) = ?rest"
    using ix(1) by (simp_all add: deleteAccount_def Let_def notify_def autoSave_def)
  from assms(1) have d: "distinct (map order (accounts st))"
    and s: "set (map order (accounts st)) = {0..<int (length (accounts st))}"
    by (simp_all add: denseOrders_iff)
  have m: "map order ?rest =
      take index (map order (accounts st)) @ drop (Suc index) (map order (accounts st))"
    by (simp add: take_map drop_map)
  have "distinct (map order ?rest)"
    unfolding m using d by (rule distinct_remove_nth)
  moreover have "set (map order ?rest) = {0..<int (length (accounts st))} - {order acc}"
    unfolding m using set_remove_nth [OF d, of index] lt s ix(2) by simp
  ultimately show ?thesis using del lt ix(2) by auto
qed

theorem C1_witness:
  "denseOrders (accounts exampleStore) \<and>
   getAccount exampleStore (str ''id-b'') = Some (exampleAccount (str ''id-b'') (str ''b@x.com'') 1) \<and>
   distinct (map order (accounts (snd (deleteAccount exampleStore (str ''id-b''))))) \<and>
   set (map order (accounts (snd (deleteAccount exampleStore (str ''id-b''))))) = {0..<3} - {1}"
proof -
  have g: "getAccount exampleStore (str ''id-b'') = Some (exampleAccount (str ''id-b'') (str ''b@x.com'') 1)"
    by (simp add: getAccount_def example_defs)
  have o: "order (exampleAccount (str ''id-b'') (str ''b@x.com'') 1) = 1" "int (length (accounts exampleStore)) = 3"
    by (simp_all add: example_defs)
  from C1_delete_keeps_orders [OF exampleStore_dense g] exampleStore_dense g o
  show ?thesis by simp
qed

text \<open>
  Deleting the first of three accounts leaves the orders \<open>1, 2\<close>: the account that had
  order \<open>1\<close> is not moved to \<open>0\<close> and the orders are no longer dense.
\<close>

theorem C1_counterexample:
  "denseOrders (accounts exampleStore) \<and>
   map_option order (getAccount exampleStore (str ''id-a'')) = Some 0 \<and>
   fst (deleteAccount exampleStore (str ''id-a'')) \<and>
   map order (accounts (snd (deleteAccount exampleStore (str ''id-a'')))) = [1, 2] \<and>
   \<not> denseOrders (accounts (snd (deleteAccount exampleStore (str ''id-a''))))"
  by (simp add: denseOrders_def getAccount_def deleteAccount_def example_defs upt_conv_Cons
      notify_def autoSave_def)

subsection \<open>Moving an account\<close>

lemma moveOrder_inj: "inj_on (moveOrder a b) {0..<n}"
  by (auto simp: inj_on_def moveOrder_def split: if_splits)

lemma moveOrder_image:
  assumes "0 \<le> a" "a < n" "0 \<le> b" "b < n"
  shows "moveOrder a b ` {0..<n} = {0..<n}"
proof (rule endo_inj_surj)
  show "finite {0..<n}" by simp
  show "moveOrder a b ` {0..<n} \<subseteq> {0..<n}"
    using assms by (auto simp: moveOrder_def)
  show "inj_on (moveOrder a b) {0..<n}" by (rule moveOrder_inj)
qed

lemma order_shiftOrder:
  "x \<noteq> a \<Longrightarrow> order acc = x \<Longrightarrow> order (shiftOrder a b acc) = moveOrder a b x"
  by (auto simp: shiftOrder_def moveOrder_def)

lemma reorder_orders:
  assumes d: "distinct (map accId xs)" and o: "distinct (map order xs)"
    and i: "index < length xs" and a: "accId (xs ! index) = accountId"
  shows "map order (map (\<lambda>acc. if accId acc = accountId then acc
                               else shiftOrder (order (xs ! index)) newOrder acc)
                        (xs[index := (xs ! index)\<lparr>order := newOrder\<rparr>]))
         = map (moveOrder (order (xs ! index)) newOrder) (map order xs)"
proof (rule nth_equalityI)
  show "length (map order (map (\<lambda>acc. if accId acc = accountId then acc
                               else shiftOrder (order (xs ! index)) newOrder acc)
                        (xs[index := (xs ! index)\<lparr>order := newOrder\<rparr>])))
      = length (map (moveOrder (order (xs ! index)) newOrder) (map order xs))"
    by simp
next
  fix j
  assume "j < length (map order (map (\<lambda>acc. if accId acc = accountId then acc
                               else shiftOrder (order (xs ! index)) newOrder acc)
                        (xs[index := (xs ! index)\<lparr>order := newOrder\<rparr>])))"
  then have j: "j < length xs" by simp
  show "map order (map (\<lambda>acc. if accId acc = accountId then acc
                               else shiftOrder (order (xs ! index)) newOrder acc)
                        (xs[index := (xs ! index)\<lparr>order := newOrder\<rparr>])) ! j
      = map (moveOrder (order (xs ! index)) newOrder) (map order xs) ! j"
  proof (cases "j = index")
    case True
    with i a show ?thesis by (simp add: moveOrder_def)
  next
    case False
    from d j i False have "map accId xs ! j \<noteq> map accId xs ! index"
      by (simp add: nth_eq_iff_index_eq del: nth_map)
    with j i a have id: "accId (xs ! j) \<noteq> accountId" by simp
    from o j i False have "map order xs ! j \<noteq> map order xs ! index"
      by (simp add: nth_eq_iff_index_eq del: nth_map)
    with j i have "order (xs ! j) \<noteq> order (xs ! index)" by simp
    with j False id show ?thesis
      by (simp add: order_shiftOrder)
  qed
qed

text \<open>
  Claim C5. In a store whose ids are unique and whose orders are the numbers
  \<open>0, ..., N - 1\<close>, \<open>reorderAccounts\<close> for a stored id and a \<open>newOrder\<close> between \<open>0\<close>
  and \<open>N - 1\<close> leaves the orders a dense permutation of \<open>0, ..., N - 1\<close>, gives the moved
  account the order \<open>newOrder\<close>, and changes nothing when \<open>newOrder\<close> is the order the
  account already has.
\<close>

theorem C5_reorder_keeps_dense:
  assumes "denseOrders (accounts st)"
    and "distinct (map accId (accounts st))"
    and "getAccount st accountId = Some acc"
    and "0 \<le> newOrder" and "newOrder < int (length (accounts st))"
  shows "fst (reorderAccounts st accountId newOrder) \<and>
         denseOrders (accounts (snd (reorderAccounts st accountId newOrder))) \<and>
         map accId (accounts (snd (reorderAccounts st accountId newOrder))) = map accId (accounts st) \<and>
         map_option order (getAccount (snd (reorderAccounts st accountId newOrder)) accountId)
           = Some newOrder \<and>
         (newOrder = order acc \<longrightarrow>
            accounts (snd (reorderAccounts st accountId newOrder)) = accounts st)"
proof -
  let ?xs = "accounts st"
  let ?n = "int (length ?xs)"
  from assms(3) obtain index where
    ix: "findIndex (\<lambda>a. accId a = accountId) ?xs = Some index" "?xs ! index = acc"
    unfolding getAccount_def by (blast dest: find_findIndex)
  from findIndex_Some [OF ix(1)] have lt: "index < length ?xs" and aid: "accId (?xs ! index) = accountId"
    by simp_all
  let ?ys = "map (\<lambda>a. if accId a = accountId then a else shiftOrder (order acc) newOrder a)
               (?xs[index := acc\<lparr>order := newOrder\<rparr>])"
  have res: "fst (reorderAccounts st accountId newOrder)"
    "accounts (snd (reorderAccounts st accountId newOrder)) = ?ys"
    using ix by (simp_all add: reorderAccounts_def Let_def notify_def autoSave_def)
  from assms(1) have d: "distinct (map order ?xs)" and s: "set (map order ?xs) = {0..<?n}"
    by (simp_all add: denseOrders_iff)
  have old: "0 \<le> order acc" "order acc < ?n"
  proof -
    have "order acc \<in> set (map order ?xs)" using lt ix(2) by (metis length_map nth_map nth_mem)
    with s show "0 \<le> order acc" "order acc < ?n" by simp_all
  qed
  have ords: "map order ?ys = map (moveOrder (order acc) newOrder) (map order ?xs)"
    using reorder_orders [OF assms(2) d lt aid, of newOrder, unfolded ix(2)] .
  have "distinct (map order ?ys)"
    unfolding ords using d s moveOrder_inj [of "order acc" newOrder ?n]
    by (simp add: distinct_map del: map_map)
  moreover have "set (map order ?ys) = {0..<?n}"
    unfolding ords using s moveOrder_image [OF old assms(4,5)] by (simp del: map_map)
  ultimately have dense: "denseOrders ?ys"
    by (simp add: denseOrders_iff)
  have ids: "map accId ?ys = map accId ?xs"
  proof (rule nth_equalityI)
    show "length (map accId ?ys) = length (map accId ?xs)" by simp
  next
    fix j assume "j < length (map accId ?ys)"
    then have "j < length ?xs" by simp
    then show "map accId ?ys ! j = map accId ?xs ! j"
      using ix(2) by (cases "j = index") (auto simp: shiftOrder_def)
  qed
  have fi: "findIndex (\<lambda>a. accId a = accountId) ?ys = Some index"
  proof -
    have "findIndex (\<lambda>a. accId a = accountId) zs = findIndex (\<lambda>i. i = accountId) (map accId zs)" for zs :: "account list"
      by (induction zs) auto
    with ids ix(1) show ?thesis by metis
  qed
  have moved: "map_option order (getAccount (snd (reorderAccounts st accountId newOrder)) accountId) = Some newOrder"
    using findIndex_find [OF fi] lt aid ix(2) by (simp add: getAccount_def res(2))
  have same: "?ys = ?xs" if "newOrder = order acc"
  proof (rule nth_equalityI)
    show "length ?ys = length ?xs" by simp
  next
    fix j assume "j < length ?ys"
    then have "j < length ?xs" by simp
    then show "?ys ! j = ?xs ! j"
      using that ix(2) by (cases "j = index") (auto simp: shiftOrder_def)
  qed
  have "denseOrders (accounts (snd (reorderAccounts st accountId newOrder)))"
    using dense by (simp only: res(2))
  moreover have "map accId (accounts (snd (reorderAccounts st accountId newOrder))) = map accId ?xs"
    using ids by (simp only: res(2))
  moreover have "newOrder = order acc \<longrightarrow>
      accounts (snd (reorderAccounts st accountId newOrder)) = ?xs"
    using same by (simp only: res(2)) blast
  ultimately show ?thesis using res(1) moved by blast
qed

theorem C5_witness:
  "denseOrders (accounts exampleStore) \<and>
   distinct (map accId (accounts exampleStore)) \<and>
   getAccount exampleStore (str ''id-a'') = Some (exampleAccount (str ''id-a'') (str ''a@x.com'') 0) \<and>
   (0::int) \<le> 2 \<and> 2 < int (length (accounts exampleStore)) \<and>
   denseOrders (accounts (snd (reorderAccounts exampleStore (str ''id-a'') 2))) \<and>
   map order (accounts (snd (reorderAccounts exampleStore (str ''id-a'') 2))) = [2, 0, 1]"
proof -
  have d: "distinct (map accId (accounts exampleStore))"
    by (simp add: example_defs)
  have g: "getAccount exampleStore (str ''id-a'') = Some (exampleAccount (str ''id-a'') (str ''a@x.com'') 0)"
    by (simp add: getAccount_def example_defs)
  have b: "(0::int) \<le> 2" "2 < int (length (accounts exampleStore))"
    by (simp_all add: example_defs)
  have r: "map order (accounts (snd (reorderAccounts exampleStore (str ''id-a'') 2))) = [2, 0, 1]"
    by (simp add: reorderAccounts_def example_defs shiftOrder_def notify_def autoSave_def)
  from C5_reorder_keeps_dense [OF exampleStore_dense d g b] exampleStore_dense d g b r
  show ?thesis by simp
qed

subsection \<open>Unknown ids\<close>

text \<open>
  Claim C10. For an id that no stored account has, \<open>updateAccount\<close>, \<open>deleteAccount\<close>
  and \<open>reorderAccounts\<close> return \<open>false\<close> and the store is what it was: the accounts,
  the number of save requests and the notifications sent.
\<close>

theorem C10_unknown_id_no_change:
  assumes "\<forall>acc \<in> set (accounts st). accId acc \<noteq> i"
  shows "updateAccount ev st i u = (False, st) \<and>
         deleteAccount st i = (False, st) \<and>
         reorderAccounts st i newOrder = (False, st)"
proof -
  from assms have "findIndex (\<lambda>acc. accId acc = i) (accounts st) = None"
    by (simp add: findIndex_None)
  then show ?thesis
    by (simp add: updateAccount_def deleteAccount_def reorderAccounts_def)
qed

theorem C10_witness:
  "(str ''id-z'') \<notin> set (map accId (accounts exampleStore)) \<and>
   updateAccount exampleEnv exampleStore (str ''id-z'') exampleUpdates = (False, exampleStore) \<and>
   deleteAccount exampleStore (str ''id-z'') = (False, exampleStore) \<and>
   reorderAccounts exampleStore (str ''id-z'') 1 = (False, exampleStore)"
proof -
  have h: "\<forall>acc \<in> set (accounts exampleStore). accId acc \<noteq> (str ''id-z'')"
    by (simp add: example_defs)
  have h': "(str ''id-z'') \<notin> set (map accId (accounts exampleStore))"
    by (simp add: example_defs)
  from C10_unknown_id_no_change [OF h, of exampleEnv exampleUpdates 1] h' show ?thesis by simp
qed

section \<open>Properties of the import\<close>

subsection \<open>Presence of a TOTP\<close>

lemma trim_Nil: "trim [] = []"
  by (simp add: trim_def)

lemma hasTOTP_iff: "hasTOTP t \<longleftrightarrow> trim t \<noteq> []"
  using trim_Nil by (auto simp: hasTOTP_def)

subsection \<open>One step of the import\<close>

lemma mergeExtras_flag:
  "mergeExtras ex upd new = (ex', upd') \<Longrightarrow> \<not> upd' \<Longrightarrow> ex' = ex \<and> \<not> upd"
  by (induction ex upd new rule: mergeExtras.induct) (auto split: if_splits)

lemma mergeExtras_set: "set (fst (mergeExtras ex upd new)) = set ex \<union> set new"
  by (induction ex upd new rule: mergeExtras.induct) auto

lemma mergeExtras_changed: "snd (mergeExtras ex upd new) \<longleftrightarrow> upd \<or> \<not> set new \<subseteq> set ex"
proof (induction ex upd new rule: mergeExtras.induct)
  case (1 ex upd)
  then show ?case by simp
next
  case (2 ex upd extra rest)
  then show ?case by (cases "extra \<in> set ex") auto
qed

lemma matches_trans: "matches ev c a \<Longrightarrow> matches ev c' a \<Longrightarrow> matches ev c' c"
  by (simp add: matches_def)

lemma findIndex_matches:
  "findIndex (matches ev c) xs = Some i \<Longrightarrow> i < length xs \<and> matches ev c (xs ! i)"
  by (drule findIndex_Some) simp

text \<open>What one step of the import does to the accounts and to the counter \<open>added\<close>.\<close>

lemma importOne_added:
  assumes "findIndex (matches ev c) (accounts st) = None \<or>
           (\<exists>i. findIndex (matches ev c) (accounts st) = Some i \<and>
                hasTOTP (totp (accounts st ! i)) \<and> hasTOTP (totp c) \<and>
                totp (accounts st ! i) \<noteq> totp c)"
  shows "accounts (fst (importOne ev (st, s) c)) = accounts st @ [fst (addAccount ev st c)] \<and>
         added (snd (importOne ev (st, s) c)) = Suc (added s)"
  using assms
  by (auto simp: importOne_def addAccount_def Let_def notify_def autoSave_def)

lemma importOne_merged:
  assumes "findIndex (matches ev c) (accounts st) = Some i"
    and "\<not> (hasTOTP (totp (accounts st ! i)) \<and> hasTOTP (totp c) \<and> totp (accounts st ! i) \<noteq> totp c)"
  shows "added (snd (importOne ev (st, s) c)) = added s \<and>
         (\<exists>e'. accounts (fst (importOne ev (st, s) c)) = (accounts st)[i := e'] \<and>
               email e' = email (accounts st ! i) \<and> password e' = password (accounts st ! i) \<and>
               (totp e' = totp (accounts st ! i) \<or>
                  \<not> hasTOTP (totp (accounts st ! i)) \<and> hasTOTP (totp c) \<and> totp e' = totp c))"
proof -
  let ?e = "accounts st ! i"
  obtain ex upd where m: "mergeExtras (extras ?e) False (extras c) = (ex, upd)"
    by (cases "mergeExtras (extras ?e) False (extras c)") 
  have skip: "accounts st = (accounts st)[i := ?e]" by simp
  consider (a) "hasTOTP (totp ?e)" "\<not> hasTOTP (totp c)"
    | (b) "\<not> hasTOTP (totp ?e)" "hasTOTP (totp c)"
    | (c) "hasTOTP (totp ?e)" "hasTOTP (totp c)" "totp ?e = totp c"
    | (d) "\<not> hasTOTP (totp ?e)" "\<not> hasTOTP (totp c)"
    using assms(2) by blast
  then show ?thesis
  proof cases
    case a
    then have "importOne ev (st, s) c = (st, s\<lparr>skipped := Suc (skipped s)\<rparr>)"
      using assms(1) by (simp add: importOne_def)
    then have "added (snd (importOne ev (st, s) c)) = added s"
      and "accounts (fst (importOne ev (st, s) c)) = (accounts st)[i := ?e]"
      by simp_all
    then show ?thesis by blast
  next
    case b
    then show ?thesis
      using assms(1) m by (auto simp: importOne_def Let_def notify_def)
  next
    case c
    then show ?thesis
      using assms(1) m by (auto simp: importOne_def mergeInto_def Let_def notify_def)
  next
    case d
    then show ?thesis
      using assms(1) m by (auto simp: importOne_def mergeInto_def Let_def notify_def)
  qed
qed

lemma matches_cong:
  "email e' = email e \<Longrightarrow> password e' = password e \<Longrightarrow> matches ev c e' = matches ev c e"
  by (simp add: matches_def)

lemma matches_added:
  assumes "normalizeEmail ev (normalizeEmail ev (email c)) = normalizeEmail ev (email c)"
  shows "matches ev c' (fst (addAccount ev st c)) = matches ev c' c"
  using assms by (simp add: matches_def addAccount_def Let_def)

lemma totp_added:
  assumes "totp c \<noteq> [] \<longrightarrow> normalizeTOTP ev (totp c) = totp c"
  shows "totp (fst (addAccount ev st c)) = totp c"
  using assms by (simp add: addAccount_def Let_def)

text \<open>The two possible outcomes of one step.\<close>

lemma importOne_outcome:
  obtains (appended) "accounts (fst (importOne ev (st, s) c)) = accounts st @ [fst (addAccount ev st c)]"
      "added (snd (importOne ev (st, s) c)) = Suc (added s)"
      "findIndex (matches ev c) (accounts st) = None \<or>
         (\<exists>i. findIndex (matches ev c) (accounts st) = Some i \<and>
              hasTOTP (totp (accounts st ! i)) \<and> hasTOTP (totp c) \<and>
              totp (accounts st ! i) \<noteq> totp c)"
  | (merged) i e' where "findIndex (matches ev c) (accounts st) = Some i"
      "accounts (fst (importOne ev (st, s) c)) = (accounts st)[i := e']"
      "added (snd (importOne ev (st, s) c)) = added s"
      "email e' = email (accounts st ! i)" "password e' = password (accounts st ! i)"
      "totp e' = totp (accounts st ! i) \<or>
         \<not> hasTOTP (totp (accounts st ! i)) \<and> hasTOTP (totp c) \<and> totp e' = totp c"
proof (cases "findIndex (matches ev c) (accounts st) = None \<or>
           (\<exists>i. findIndex (matches ev c) (accounts st) = Some i \<and>
                hasTOTP (totp (accounts st ! i)) \<and> hasTOTP (totp c) \<and>
                totp (accounts st ! i) \<noteq> totp c)")
  case True
  from importOne_added [OF True, of s] True show ?thesis by (intro appended) simp_all
next
  case False
  then obtain i where i: "findIndex (matches ev c) (accounts st) = Some i"
    and n: "\<not> (hasTOTP (totp (accounts st ! i)) \<and> hasTOTP (totp c) \<and> totp (accounts st ! i) \<noteq> totp c)"
    by auto
  from importOne_merged [OF i n, of s] i show ?thesis by (elim conjE exE) (rule merged)
qed

lemma importOne_agrees:
  assumes c: "c \<in> set batch" and en: "emailsNormal ev batch" and ts: "totpStored ev batch"
    and bb: "agrees ev batch batch" and inv: "agrees ev batch (accounts st)"
  shows "agrees ev batch (accounts (fst (importOne ev (st, s) c)))"
proof (cases rule: importOne_outcome [of ev st s c])
  case appended
  let ?n = "fst (addAccount ev st c)"
  have "totp ?n = totp c'" if c': "c' \<in> set batch" and m: "matches ev c' ?n"
    and h: "hasTOTP (totp ?n)" "hasTOTP (totp c')" for c'
  proof -
    from ts c have "totp c \<noteq> [] \<longrightarrow> normalizeTOTP ev (totp c) = totp c"
      by (simp add: totpStored_def)
    then have "totp ?n = totp c" by (rule totp_added)
    with h(1) have t: "totp ?n = totp c" "hasTOTP (totp c)" by simp_all
    from en c have "normalizeEmail ev (normalizeEmail ev (email c)) = normalizeEmail ev (email c)"
      by (simp add: emailsNormal_def)
    with m have "matches ev c' c" by (simp only: matches_added)
    with bb c c' t(2) h(2) have "totp c = totp c'" unfolding agrees_def by blast
    with t(1) show ?thesis by simp
  qed
  then have n: "\<And>c'. c' \<in> set batch \<Longrightarrow> matches ev c' ?n \<and> hasTOTP (totp ?n) \<and> hasTOTP (totp c')
      \<Longrightarrow> totp ?n = totp c'" by blast
  show ?thesis
    unfolding agrees_def appended(1)
  proof (intro ballI impI)
    fix c' a
    assume c': "c' \<in> set batch" and a: "a \<in> set (accounts st @ [?n])"
      and h: "matches ev c' a \<and> hasTOTP (totp a) \<and> hasTOTP (totp c')"
    from a have "a = ?n \<or> a \<in> set (accounts st)" by auto
    then show "totp a = totp c'"
    proof
      assume "a = ?n"
      with n [OF c'] h show ?thesis by simp
    next
      assume "a \<in> set (accounts st)"
      with inv c' h show ?thesis unfolding agrees_def by blast
    qed
  qed
next
  case (merged i e')
  from findIndex_matches [OF merged(1)] have i: "i < length (accounts st)"
    and mi: "matches ev c (accounts st ! i)" by simp_all
  let ?e = "accounts st ! i"
  have e': "totp e' = totp c'" if c': "c' \<in> set batch" and m: "matches ev c' e'"
    and h: "hasTOTP (totp e')" "hasTOTP (totp c')" for c'
  proof -
    from m have me: "matches ev c' ?e" by (simp only: matches_cong [OF merged(4,5)])
    from merged(6) show ?thesis
    proof
      assume same: "totp e' = totp ?e"
      from i have "?e \<in> set (accounts st)" by simp
      moreover from h(1) same have "hasTOTP (totp ?e)" by simp
      ultimately have "totp ?e = totp c'"
        using inv c' me h(2) unfolding agrees_def by blast
      with same show ?thesis by simp
    next
      assume a: "\<not> hasTOTP (totp ?e) \<and> hasTOTP (totp c) \<and> totp e' = totp c"
      from mi me have "matches ev c' c" by (rule matches_trans)
      with bb c c' a h(2) have "totp c = totp c'" unfolding agrees_def by blast
      with a show ?thesis by simp
    qed
  qed
  show ?thesis
    unfolding agrees_def merged(2)
  proof (intro ballI impI)
    fix c' a
    assume c': "c' \<in> set batch" and a: "a \<in> set ((accounts st)[i := e'])"
      and h: "matches ev c' a \<and> hasTOTP (totp a) \<and> hasTOTP (totp c')"
    from a have "a = e' \<or> a \<in> set (accounts st)"
      using set_update_subset_insert [of "accounts st" i e'] by auto
    then show "totp a = totp c'"
    proof
      assume "a = e'"
      with e' c' h show ?thesis by simp
    next
      assume "a \<in> set (accounts st)"
      with inv c' h show ?thesis unfolding agrees_def by blast
    qed
  qed
qed

lemma importOne_covers_new:
  assumes "normalizeEmail ev (normalizeEmail ev (email c)) = normalizeEmail ev (email c)"
  shows "\<exists>a \<in> set (accounts (fst (importOne ev (st, s) c))). matches ev c a"
proof (cases rule: importOne_outcome [of ev st s c])
  case appended
  have "matches ev c c" by (simp add: matches_def)
  with assms have "matches ev c (fst (addAccount ev st c))"
    by (simp only: matches_added)
  then show ?thesis unfolding appended(1) by simp
next
  case (merged i e')
  from findIndex_matches [OF merged(1)] have i: "i < length (accounts st)"
    and mi: "matches ev c (accounts st ! i)" by simp_all
  from mi have "matches ev c e'" by (simp only: matches_cong [OF merged(4,5)])
  moreover from i have "e' \<in> set ((accounts st)[i := e'])" by (rule set_update_memI)
  ultimately show ?thesis unfolding merged(2) by blast
qed

lemma importOne_covers_old:
  assumes "\<exists>a \<in> set (accounts st). matches ev c' a"
  shows "\<exists>a \<in> set (accounts (fst (importOne ev (st, s) c))). matches ev c' a"
proof -
  from assms obtain j where j: "j < length (accounts st)" "matches ev c' (accounts st ! j)"
    by (auto simp: in_set_conv_nth)
  show ?thesis
  proof (cases rule: importOne_outcome [of ev st s c])
    case appended
    from j show ?thesis unfolding appended(1) by auto
  next
    case (merged i e')
    have "matches ev c' ((accounts st)[i := e'] ! j)"
    proof (cases "j = i")
      case True
      with j show ?thesis by (simp add: matches_cong [OF merged(4,5)])
    next
      case False
      with j show ?thesis by simp
    qed
    moreover from j have "(accounts st)[i := e'] ! j \<in> set ((accounts st)[i := e'])"
      by simp
    ultimately show ?thesis unfolding merged(2) by blast
  qed
qed

lemma importOne_no_add:
  assumes c: "c \<in> set batch" and inv: "agrees ev batch (accounts st)"
    and cov: "\<exists>a \<in> set (accounts st). matches ev c a"
  shows "added (snd (importOne ev (st, s) c)) = added s \<and>
         length (accounts (fst (importOne ev (st, s) c))) = length (accounts st)"
proof (cases rule: importOne_outcome [of ev st s c])
  case appended
  from cov have "findIndex (matches ev c) (accounts st) \<noteq> None"
    by (simp add: findIndex_None)
  with appended(3) obtain i where i: "findIndex (matches ev c) (accounts st) = Some i"
    and h: "hasTOTP (totp (accounts st ! i))" "hasTOTP (totp c)"
    and ne: "totp (accounts st ! i) \<noteq> totp c"
    by auto
  from findIndex_matches [OF i] have "accounts st ! i \<in> set (accounts st)"
    and "matches ev c (accounts st ! i)" by simp_all
  with inv c h have "totp (accounts st ! i) = totp c" unfolding agrees_def by blast
  with ne show ?thesis by contradiction
next
  case (merged i e')
  then show ?thesis by simp
qed

subsection \<open>A whole pass\<close>

lemma importAccounts_conv:
  "fst (importAccounts ev st batch) = snd (foldl (importOne ev) (st, \<lparr>added = 0, updated = 0, skipped = 0\<rparr>) batch)"
  "accounts (snd (importAccounts ev st batch)) =
     accounts (fst (foldl (importOne ev) (st, \<lparr>added = 0, updated = 0, skipped = 0\<rparr>) batch))"
  by (simp_all add: importAccounts_def notify_def autoSave_def split: prod.splits)

lemma import_pass_invariant:
  assumes en: "emailsNormal ev batch" and ts: "totpStored ev batch" and bb: "agrees ev batch batch"
  shows "set cs \<subseteq> set batch \<Longrightarrow> agrees ev batch (accounts st) \<Longrightarrow>
         agrees ev batch (accounts (fst (foldl (importOne ev) (st, s) cs))) \<and>
         (\<forall>c' \<in> set cs. \<exists>a \<in> set (accounts (fst (foldl (importOne ev) (st, s) cs))). matches ev c' a) \<and>
         (\<forall>c' :: accountData. (\<exists>a \<in> set (accounts st). matches ev c' a) \<longrightarrow>
               (\<exists>a \<in> set (accounts (fst (foldl (importOne ev) (st, s) cs))). matches ev c' a))"
proof (induction cs arbitrary: st s)
  case Nil
  then show ?case by simp
next
  case (Cons c cs)
  obtain st1 s1 where step: "importOne ev (st, s) c = (st1, s1)"
    by (cases "importOne ev (st, s) c")
  from Cons.prems have c: "c \<in> set batch" and cs: "set cs \<subseteq> set batch" by simp_all
  from importOne_agrees [OF c en ts bb Cons.prems(2), of s] step
  have inv1: "agrees ev batch (accounts st1)" by simp
  from en c have idem: "normalizeEmail ev (normalizeEmail ev (email c)) = normalizeEmail ev (email c)"
    by (simp add: emailsNormal_def)
  from importOne_covers_new [OF idem, of st s] step
  have cov_c: "\<exists>a \<in> set (accounts st1). matches ev c a" by simp
  have keep: "\<exists>a \<in> set (accounts st1). matches ev c' a"
    if "\<exists>a \<in> set (accounts st). matches ev c' a" for c' :: accountData
    using importOne_covers_old [OF that, of s c] step by simp
  note IH = Cons.IH [OF cs inv1, of s1]
  let ?r = "accounts (fst (foldl (importOne ev) (st1, s1) cs))"
  have r: "accounts (fst (foldl (importOne ev) (st, s) (c # cs))) = ?r"
    by (simp add: step)
  note IH1 = IH [THEN conjunct1]
    and IH2 = IH [THEN conjunct2, THEN conjunct1]
    and IH3 = IH [THEN conjunct2, THEN conjunct2, rule_format]
  have B: "\<exists>a \<in> set ?r. matches ev c a"
    using cov_c by (rule IH3)
  have D: "\<forall>c' :: accountData. (\<exists>a \<in> set (accounts st). matches ev c' a) \<longrightarrow> (\<exists>a \<in> set ?r. matches ev c' a)"
  proof (intro allI impI)
    fix c' :: accountData
    assume "\<exists>a \<in> set (accounts st). matches ev c' a"
    then have "\<exists>a \<in> set (accounts st1). matches ev c' a" by (rule keep)
    then show "\<exists>a \<in> set ?r. matches ev c' a" by (rule IH3)
  qed
  from B IH2 have BC: "\<forall>c' \<in> set (c # cs). \<exists>a \<in> set ?r. matches ev c' a" by simp
  show ?case unfolding r using IH1 BC D by (intro conjI)
qed

lemma import_pass_no_add:
  "set cs \<subseteq> set batch \<Longrightarrow> agrees ev batch (accounts st) \<Longrightarrow>
   totpStored ev batch \<Longrightarrow> agrees ev batch batch \<Longrightarrow>
   emailsNormal ev batch \<Longrightarrow>
   \<forall>c \<in> set cs. \<exists>a \<in> set (accounts st). matches ev c a \<Longrightarrow>
   added (snd (foldl (importOne ev) (st, s) cs)) = added s \<and>
   length (accounts (fst (foldl (importOne ev) (st, s) cs))) = length (accounts st)"
proof (induction cs arbitrary: st s)
  case Nil
  then show ?case by simp
next
  case (Cons c cs)
  obtain st1 s1 where step: "importOne ev (st, s) c = (st1, s1)"
    by (cases "importOne ev (st, s) c")
  from Cons.prems have c: "c \<in> set batch" and cs: "set cs \<subseteq> set batch" by simp_all
  from Cons.prems(6) have cov: "\<exists>a \<in> set (accounts st). matches ev c a" by simp
  from importOne_no_add [OF c Cons.prems(2) cov, of s] step
  have same: "added s1 = added s" "length (accounts st1) = length (accounts st)" by simp_all
  from importOne_agrees [OF c Cons.prems(5,3,4,2), of s] step
  have inv1: "agrees ev batch (accounts st1)" by simp
  have cov1: "\<forall>c' \<in> set cs. \<exists>a \<in> set (accounts st1). matches ev c' a"
  proof
    fix c' assume "c' \<in> set cs"
    with Cons.prems(6) have "\<exists>a \<in> set (accounts st). matches ev c' a" by simp
    from importOne_covers_old [OF this, of s c] step
    show "\<exists>a \<in> set (accounts st1). matches ev c' a" by simp
  qed
  from Cons.IH [OF cs inv1 Cons.prems(3,4,5) cov1, of s1] same show ?case
    by (simp add: step)
qed

subsection \<open>Example values\<close>

lemmas string_eval = normalizeEmail_def normalizeTOTP_def hasTOTP_def trim_def isSpace_def
  whiteSpace_def exampleEnv_def lowerUnit_def upperUnit_def str_def

lemma email_examples:
  "normalizeEmail exampleEnv (str ''a@x.com'') = str ''a@x.com''"
  "normalizeEmail exampleEnv (str ''b@x.com'') = str ''b@x.com''"
  "normalizeEmail exampleEnv (str ''c@x.com'') = str ''c@x.com''"
  "normalizeEmail exampleEnv (str ''A@x.com '') = str ''a@x.com''"
  "normalizeEmail exampleEnv (str '' A@X.com'') = str ''a@x.com''"
  "normalizeEmail exampleEnv (str ''new@x.com'') = str ''new@x.com''"
  by (simp_all add: string_eval)

lemma str_eq_iff: "str a = str b \<longleftrightarrow> a = b"
proof -
  have "inj (of_char :: char \<Rightarrow> nat)"
    by (rule injI) simp
  then show ?thesis
    by (simp add: str_def inj_map_eq_map)
qed

lemma totp_examples:
  "hasTOTP secretA" "hasTOTP secretB" "\<not> hasTOTP []" "\<not> hasTOTP [0xA0, 0x20]"
  "secretA \<noteq> []" "secretB \<noteq> []" "secretA \<noteq> secretB" "secretB \<noteq> secretA"
  "normalizeTOTP exampleEnv secretA = secretA" "normalizeTOTP exampleEnv secretB = secretB"
  "trim secretA \<noteq> []" "trim [0xA0, 0x20] = []"
  "hasTOTP (str ''jbswy3dpehpk3pxpjbswy3dpehpk3pxp'')"
  "str ''jbswy3dpehpk3pxpjbswy3dpehpk3pxp'' \<noteq> []"
  "secretA \<noteq> str ''jbswy3dpehpk3pxpjbswy3dpehpk3pxp''"
  "normalizeTOTP exampleEnv (str ''jbswy3dpehpk3pxpjbswy3dpehpk3pxp'') = secretA"
  by (simp_all add: string_eval secretA_def secretB_def)

lemmas import_eval = importAccounts_def importOne_def mergeInto_def addAccount_def matches_def
  notify_def autoSave_def Let_def exampleBatch_def conflictingBatch_def candidate_def
  exampleStore_def exampleAccount_def totpStore_def emptyStore_def lowerCaseCandidate_def
  blankTotpCandidate_def email_examples str_eq_iff totp_examples

subsection \<open>Importing a batch twice\<close>

text \<open>
  Claim C2, as the code has it. Take a batch whose emails are in normal form under
  \<open>normalizeEmail\<close>, whose TOTPs are empty or already in stored form (left as they are
  by \<open>normalizeTOTP\<close>), in which candidates with the same normalised email and password
  do not carry two different TOTPs, and none of which has the normalised email and
  password of a stored account that carries a different TOTP. Importing the batch and
  then importing it again gives \<open>added = 0\<close> on the second pass and leaves the number of
  accounts unchanged. The case tables of the platform are arbitrary.
\<close>

theorem C2_second_import_adds_nothing:
  assumes "emailsNormal ev batch" and "totpStored ev batch"
    and "agrees ev batch batch" and "agrees ev batch (accounts st)"
  shows "added (fst (importAccounts ev (snd (importAccounts ev st batch)) batch)) = 0 \<and>
         length (accounts (snd (importAccounts ev (snd (importAccounts ev st batch)) batch)))
           = length (accounts (snd (importAccounts ev st batch)))"
proof -
  let ?z = "\<lparr>added = 0, updated = 0, skipped = 0\<rparr>"
  let ?st1 = "snd (importAccounts ev st batch)"
  note p = import_pass_invariant [OF assms(1,2,3) subset_refl assms(4), of ?z]
  have inv: "agrees ev batch (accounts ?st1)"
    unfolding importAccounts_conv using p by blast
  have cov: "\<forall>c \<in> set batch. \<exists>a \<in> set (accounts ?st1). matches ev c a"
    unfolding importAccounts_conv using p by blast
  from import_pass_no_add [OF subset_refl inv assms(2,3,1) cov, of ?z]
  show ?thesis by (simp add: importAccounts_conv)
qed

theorem C2_witness:
  "emailsNormal exampleEnv exampleBatch \<and> totpStored exampleEnv exampleBatch \<and>
   agrees exampleEnv exampleBatch exampleBatch \<and>
   agrees exampleEnv exampleBatch (accounts exampleStore) \<and>
   fst (importAccounts exampleEnv exampleStore exampleBatch) = \<lparr>added = 1, updated = 1, skipped = 0\<rparr> \<and>
   added (fst (importAccounts exampleEnv
                 (snd (importAccounts exampleEnv exampleStore exampleBatch)) exampleBatch)) = 0 \<and>
   length (accounts (snd (importAccounts exampleEnv
                 (snd (importAccounts exampleEnv exampleStore exampleBatch)) exampleBatch)))
     = length (accounts (snd (importAccounts exampleEnv exampleStore exampleBatch)))"
proof -
  have h0: "emailsNormal exampleEnv exampleBatch"
    by (simp add: emailsNormal_def exampleBatch_def candidate_def email_examples)
  have h1: "totpStored exampleEnv exampleBatch"
    by (simp add: totpStored_def exampleBatch_def candidate_def totp_examples)
  have h2: "agrees exampleEnv exampleBatch exampleBatch"
    by (simp add: agrees_def import_eval)
  have h3: "agrees exampleEnv exampleBatch (accounts exampleStore)"
    by (simp add: agrees_def import_eval)
  have f: "fst (importAccounts exampleEnv exampleStore exampleBatch) = \<lparr>added = 1, updated = 1, skipped = 0\<rparr>"
    by (simp add: import_eval)
  from C2_second_import_adds_nothing [OF h0 h1 h2 h3] h0 h1 h2 h3 f
  show ?thesis by simp
qed

text \<open>
  Two candidates with the same email and password and two different TOTPs, imported into
  the empty store: the first pass adds both, and the second pass adds the second one
  again, because the first account found for its email and password carries the other
  TOTP.
\<close>

theorem C2_counterexample:
  "length (accounts (snd (importAccounts exampleEnv emptyStore conflictingBatch))) = 2 \<and>
   added (fst (importAccounts exampleEnv
                 (snd (importAccounts exampleEnv emptyStore conflictingBatch)) conflictingBatch)) = 1 \<and>
   length (accounts (snd (importAccounts exampleEnv
                 (snd (importAccounts exampleEnv emptyStore conflictingBatch)) conflictingBatch))) = 3"
  by (simp add: import_eval)

subsection \<open>A candidate without TOTP never touches an account with TOTP\<close>

text \<open>
  Claim C4. When the account that \<open>importAccounts\<close> finds for a candidate (same
  normalised email, same password) has a TOTP that is not empty after \<open>trim\<close> and the
  candidate's TOTP is empty after \<open>trim\<close>, the step counts the candidate as skipped and
  changes nothing in the store; a batch of that one candidate returns
  \<open>{added: 0, updated: 0, skipped: 1}\<close> and leaves every account, with its TOTP, as it
  was. This holds for every string of code units and whatever the case tables of the
  platform are.
\<close>

theorem C4_totp_loss_protection:
  assumes "findIndex (matches ev newAcc) (accounts st) = Some index"
    and "trim (totp (accounts st ! index)) \<noteq> []"
    and "trim (totp newAcc) = []"
  shows "importOne ev (st, s) newAcc = (st, s\<lparr>skipped := Suc (skipped s)\<rparr>) \<and>
         fst (importAccounts ev st [newAcc]) = \<lparr>added = 0, updated = 0, skipped = 1\<rparr> \<and>
         accounts (snd (importAccounts ev st [newAcc])) = accounts st"
proof -
  from assms(2,3) have "hasTOTP (totp (accounts st ! index))" "\<not> hasTOTP (totp newAcc)"
    by (simp_all add: hasTOTP_iff)
  with assms(1) have step: "importOne ev (st, s) newAcc = (st, s\<lparr>skipped := Suc (skipped s)\<rparr>)" for s
    by (simp add: importOne_def)
  then show ?thesis
    by (simp add: importAccounts_def notify_def autoSave_def)
qed

text \<open>
  The candidate of the witness has its email in upper case with a leading space and a
  TOTP of a no-break space and a space.
\<close>

theorem C4_witness:
  "findIndex (matches exampleEnv blankTotpCandidate) (accounts totpStore) = Some 0 \<and>
   trim (totp (accounts totpStore ! 0)) \<noteq> [] \<and>
   trim (totp blankTotpCandidate) = [] \<and>
   fst (importAccounts exampleEnv totpStore [blankTotpCandidate]) = \<lparr>added = 0, updated = 0, skipped = 1\<rparr> \<and>
   accounts (snd (importAccounts exampleEnv totpStore [blankTotpCandidate])) = accounts totpStore \<and>
   map totp (accounts (snd (importAccounts exampleEnv totpStore [blankTotpCandidate]))) = [secretA]"
proof -
  have h1: "findIndex (matches exampleEnv blankTotpCandidate) (accounts totpStore) = Some 0"
    by (simp add: import_eval)
  have h2: "trim (totp (accounts totpStore ! 0)) \<noteq> []"
    by (simp add: totpStore_def exampleAccount_def totp_examples)
  have h3: "trim (totp blankTotpCandidate) = []"
    by (simp add: blankTotpCandidate_def candidate_def totp_examples)
  have t: "map totp (accounts totpStore) = [secretA]"
    by (simp add: totpStore_def exampleAccount_def)
  from C4_totp_loss_protection [OF h1 h2 h3] h1 h2 h3 t
  show ?thesis by simp
qed

subsection \<open>The same TOTP in another case\<close>

text \<open>
  When the account found and the candidate carry the same TOTP string, the step merges the
  extras and adds nothing.
\<close>

lemma importOne_same_totp:
  assumes "findIndex (matches ev c) (accounts st) = Some i"
    and "hasTOTP (totp (accounts st ! i))" and "hasTOTP (totp c)"
    and "totp (accounts st ! i) = totp c"
  shows "importOne ev (st, s) c = mergeInto st s i c"
  using assms by (simp add: importOne_def)

text \<open>
  Claim C3 at the candidate \<open>lowerCaseCandidate\<close>: the stored account has the TOTP
  \<open>secretA\<close>, the candidate has the same email and password and the same secret in lower
  case, so the two are equal under \<open>normalizeTOTP\<close>. The code compares the two strings as
  they are, takes them for different, and inserts a second account, whose stored TOTP is
  again \<open>secretA\<close>; the extras are not merged into the existing account.
\<close>

theorem C3_lower_case_totp_is_duplicated:
  "findIndex (matches exampleEnv lowerCaseCandidate) (accounts totpStore) = Some 0 \<and>
   normalizeTOTP exampleEnv (totp lowerCaseCandidate)
     = normalizeTOTP exampleEnv (totp (accounts totpStore ! 0)) \<and>
   fst (importAccounts exampleEnv totpStore [lowerCaseCandidate]) = \<lparr>added = 1, updated = 0, skipped = 0\<rparr> \<and>
   map totp (accounts (snd (importAccounts exampleEnv totpStore [lowerCaseCandidate]))) = [secretA, secretA] \<and>
   map extras (accounts (snd (importAccounts exampleEnv totpStore [lowerCaseCandidate]))) = [[], [str ''note'']]"
  by (simp add: import_eval)

section \<open>Properties of the TOTP generator\<close>

subsection \<open>The truncation in 32-bit arithmetic\<close>

lemma or_push_int:
  fixes x y :: int
  assumes "0 \<le> x" "x < 2 ^ n"
  shows "x OR push_bit n y = x + push_bit n y"
  using concat_bit_eq [of n x y] assms by (simp add: concat_bit_def take_bit_int_eq_self)

lemma int_code:
  fixes a b c d :: int
  assumes "0 \<le> b" "b < 2 ^ 8" "0 \<le> c" "c < 2 ^ 8" "0 \<le> d" "d < 2 ^ 8"
  shows "push_bit 24 a OR push_bit 16 b OR push_bit 8 c OR d = a * 2 ^ 24 + b * 2 ^ 16 + c * 2 ^ 8 + d"
proof -
  have "d OR push_bit 8 (c OR push_bit 8 (b OR push_bit 8 a))
      = d + push_bit 8 (c + push_bit 8 (b + push_bit 8 a))"
    by (simp only: or_push_int [OF assms(1,2)] or_push_int [OF assms(3,4)] or_push_int [OF assms(5,6)])
  moreover have "d OR push_bit 8 (c OR push_bit 8 (b OR push_bit 8 a))
      = push_bit 24 a OR push_bit 16 b OR push_bit 8 c OR d"
    by (simp add: push_bit_or push_bit_push_bit or.assoc or.commute or.left_commute)
  moreover have "d + push_bit 8 (c + push_bit 8 (b + push_bit 8 a))
      = a * 2 ^ 24 + b * 2 ^ 16 + c * 2 ^ 8 + d"
    by (simp add: push_bit_eq_mult algebra_simps)
  ultimately show ?thesis by simp
qed

lemma byte_and_ff: "uint (b :: byte) AND 0xff = uint b"
proof -
  have "(0xff :: int) = mask 8" by (simp add: mask_eq_exp_minus_1)
  then have "uint b AND 0xff = take_bit 8 (uint b)" by (simp only: take_bit_eq_mask)
  also have "\<dots> = uint b"
    using uint_bounded [of b] by (simp add: take_bit_int_eq_self)
  finally show ?thesis .
qed

lemma byte_and_7f: "uint (b :: byte) AND 0x7f = uint b mod 128"
proof -
  have "(0x7f :: int) = mask 7" by (simp add: mask_eq_exp_minus_1)
  then have "uint b AND 0x7f = take_bit 7 (uint b)" by (simp only: take_bit_eq_mask)
  then show ?thesis by (simp add: take_bit_eq_mod)
qed

lemma sint_code:
  fixes b0 b1 b2 b3 :: byte
  shows "sint (push_bit 24 (ucast b0 AND 0x7f) OR push_bit 16 (ucast b1 AND 0xff)
          OR push_bit 8 (ucast b2 AND 0xff) OR (ucast b3 AND 0xff) :: 32 word)
       = (uint b0 mod 128) * 2 ^ 24 + uint b1 * 2 ^ 16 + uint b2 * 2 ^ 8 + uint b3"
proof -
  let ?W = "push_bit 24 (ucast b0 AND 0x7f) OR push_bit 16 (ucast b1 AND 0xff)
          OR push_bit 8 (ucast b2 AND 0xff) OR (ucast b3 AND 0xff) :: 32 word"
  let ?E = "(uint b0 mod 128) * 2 ^ 24 + uint b1 * 2 ^ 16 + uint b2 * 2 ^ 8 + uint b3"
  have b: "0 \<le> uint b1" "uint b1 < 2 ^ 8" "0 \<le> uint b2" "uint b2 < 2 ^ 8"
    "0 \<le> uint b3" "uint b3 < 2 ^ 8"
    using uint_bounded [of b1] uint_bounded [of b2] uint_bounded [of b3] by simp_all
  have "?W = word_of_int (push_bit 24 (uint b0 AND 0x7f) OR push_bit 16 (uint b1 AND 0xff)
          OR push_bit 8 (uint b2 AND 0xff) OR (uint b3 AND 0xff))"
    by (simp add: of_int_or_eq of_int_and_eq of_int_push_bit of_int_uint)
  also have "\<dots> = word_of_int ?E"
    by (simp only: byte_and_ff byte_and_7f int_code [OF b])
  finally have W: "?W = word_of_int ?E" .
  have a: "0 \<le> uint b0 mod 128" "uint b0 mod 128 < 128" by simp_all
  have "0 \<le> ?E" using a(1) b(1,3,5) by simp
  moreover have "- (2 ^ 31) \<le> (0 :: int)" by simp
  ultimately have lo: "- (2 ^ 31) \<le> ?E" by (rule order_trans [rotated])
  have hi: "?E < 2 ^ 31" using a(2) b(2,4,6) by simp
  note lo hi
  then have "signed_take_bit 31 ?E = ?E" by (rule signed_take_bit_int_eq_self)
  moreover have "sint (word_of_int ?E :: 32 word) = signed_take_bit 31 ?E"
    by (simp only: sint_sbintrunc') simp
  ultimately have "sint (word_of_int ?E :: 32 word) = ?E" by (rule trans [rotated])
  then show ?thesis by (simp only: W)
qed

lemma jsRem_nat: "jsRem (int n) 1000000 = int (n mod 1000000)"
  by (cases "n = 0") (simp_all add: jsRem_def zmod_int)

lemma numberToString_nat: "numberToString (int n) = digitsOf n"
  by (simp add: numberToString_def)

lemma digitsOf_step:
  "10 \<le> n \<Longrightarrow> digitsOf n = digitsOf (n div 10) @ [digitChar (n mod 10)]"
  by (subst digitsOf.simps) simp

lemma digitsOf_small: "n < 10 \<Longrightarrow> digitsOf n = [digitChar n]"
  by (subst digitsOf.simps) simp

lemma padded_digits:
  "0 < k \<Longrightarrow> n < 10 ^ k \<Longrightarrow>
   length (digitsOf n) \<le> k \<and>
   padStart k (digitChar 0) (digitsOf n) = map (\<lambda>i. digitChar (n div 10 ^ (k - 1 - i) mod 10)) [0..<k]"
proof (induction k arbitrary: n)
  case 0
  then show ?case by simp
next
  case (Suc k)
  show ?case
  proof (cases "k = 0")
    case True
    with Suc.prems have "n < 10" by simp
    then show ?thesis using True by (simp add: digitsOf_small padStart_def)
  next
    case False
    then have k: "0 < k" by simp
    from Suc.prems have "n div 10 < 10 ^ k" by (simp add: less_mult_imp_div_less)
    from Suc.IH [OF k this]
    have len: "length (digitsOf (n div 10)) \<le> k"
      and pad: "padStart k (digitChar 0) (digitsOf (n div 10))
          = map (\<lambda>i. digitChar (n div 10 div 10 ^ (k - 1 - i) mod 10)) [0..<k]"
      by simp_all
    have split: "length (digitsOf n) \<le> Suc k \<and>
        padStart (Suc k) (digitChar 0) (digitsOf n)
          = padStart k (digitChar 0) (digitsOf (n div 10)) @ [digitChar (n mod 10)]"
    proof (cases "n < 10")
      case True
      then have "n div 10 = 0" by simp
      moreover have "digitsOf 0 = [digitChar 0]" by (rule digitsOf_small) simp
      moreover have "replicate (k - Suc 0) (digitChar 0) @ [digitChar 0] = replicate k (digitChar 0)"
        using k by (cases k) (simp_all add: replicate_append_same)
      ultimately show ?thesis
        using True by (simp add: digitsOf_small padStart_def)
    next
      case False
      then have "digitsOf n = digitsOf (n div 10) @ [digitChar (n mod 10)]"
        by (intro digitsOf_step) simp
      with len show ?thesis by (simp add: padStart_def Suc_diff_le)
    qed
    have "map (\<lambda>i. digitChar (n div 10 ^ (Suc k - 1 - i) mod 10)) [0..<Suc k]
        = map (\<lambda>i. digitChar (n div 10 ^ (k - i) mod 10)) [0..<k] @ [digitChar (n mod 10)]"
      by simp
    also have "map (\<lambda>i. digitChar (n div 10 ^ (k - i) mod 10)) [0..<k]
        = map (\<lambda>i. digitChar (n div 10 div 10 ^ (k - 1 - i) mod 10)) [0..<k]"
    proof (rule map_cong [OF refl])
      fix i assume "i \<in> set [0..<k]"
      then have "k - i = Suc (k - 1 - i)" by auto
      then show "digitChar (n div 10 ^ (k - i) mod 10) = digitChar (n div 10 div 10 ^ (k - 1 - i) mod 10)"
        by (simp add: div_mult2_eq)
    qed
    finally show ?thesis using split pad by simp
  qed
qed

lemma byteAt_in_range: "i < length h \<Longrightarrow> byteAt h i = ucast (h ! i)"
  by (simp add: byteAt_def)

lemma numeral_15_mask: "(0xf :: int) = mask 4" by (simp add: mask_eq_exp_minus_1)

lemma uint_low_nibble: "uint (ucast (b :: byte) AND 0xf :: 32 word) = uint b AND 0xf"
proof -
  have "uint (ucast b :: 32 word) = uint b"
    by (rule uint_up_ucast) (simp add: is_up)
  moreover have "uint (0xf :: 32 word) = 0xf" by simp
  ultimately show ?thesis by (simp only: uint_and)
qed

lemma low_nibble_mod: "uint (b :: byte) AND 0xf = uint b mod 16"
proof -
  have "uint b AND 0xf = take_bit 4 (uint b)" by (simp only: numeral_15_mask take_bit_eq_mask)
  also have "\<dots> = uint b mod 2 ^ 4" by (rule take_bit_eq_mod)
  finally show ?thesis by simp
qed

lemma unat_low_nibble: "unat (ucast (b :: byte) AND 0xf :: 32 word) = unat b mod 16"
proof -
  have "int (unat (ucast b AND 0xf :: 32 word)) = int (unat b mod 16)"
    by (simp only: uint_nat [symmetric] uint_low_nibble low_nibble_mod zmod_int) simp
  then show ?thesis by (rule int_int_eq [THEN iffD1])
qed

lemma truncate_int:
  fixes b0 b1 b2 b3 :: byte
  shows "int (unat b0 mod 128 * 2 ^ 24 + unat b1 * 2 ^ 16 + unat b2 * 2 ^ 8 + unat b3)
       = uint b0 mod 128 * 2 ^ 24 + uint b1 * 2 ^ 16 + uint b2 * 2 ^ 8 + uint b3"
  by (simp only: uint_nat of_nat_add of_nat_mult of_nat_power of_nat_numeral zmod_int)

text \<open>
  For a digest of 20 bytes the code computed with the 32-bit operations is the code of
  the specification.
\<close>

lemma totpCode_spec:
  assumes "length hmac = 20"
  shows "totpCode hmac = spec_code hmac"
proof -
  let ?o = "unat (hmac ! 19) mod 16"
  have "byteAt hmac (length hmac - 1) = ucast (hmac ! 19)"
    using assms by (simp add: byteAt_def)
  then have o: "unat (byteAt hmac (length hmac - 1) AND 0xf) = ?o"
    by (simp only: unat_low_nibble)
  have "?o < 16" by simp
  with assms have r: "?o < length hmac" "?o + 1 < length hmac" "?o + 2 < length hmac"
    "?o + 3 < length hmac" by simp_all
  let ?n = "spec_truncate hmac"
  have n: "int ?n = uint (hmac ! ?o) mod 128 * 2 ^ 24 + uint (hmac ! (?o + 1)) * 2 ^ 16
      + uint (hmac ! (?o + 2)) * 2 ^ 8 + uint (hmac ! (?o + 3))"
    by (simp only: spec_truncate_def Let_def truncate_int)
  have "sint (push_bit 24 (byteAt hmac ?o AND 0x7f)
                 OR push_bit 16 (byteAt hmac (?o + 1) AND 0xff)
                 OR push_bit 8 (byteAt hmac (?o + 2) AND 0xff)
                 OR (byteAt hmac (?o + 3) AND 0xff)) = int ?n"
    by (simp only: byteAt_in_range [OF r(1)] byteAt_in_range [OF r(2)] byteAt_in_range [OF r(3)]
        byteAt_in_range [OF r(4)] sint_code n)
  moreover have z: "of_char CHR ''0'' = digitChar 0"
    by (simp add: digitChar_def str_def)
  ultimately have "totpCode hmac = padStart 6 (digitChar 0) (digitsOf (?n mod 1000000))"
    by (simp only: totpCode_def Let_def o jsRem_nat numberToString_nat)
  also have "\<dots> = spec_sixDigits (?n mod 1000000)"
  proof -
    have "?n mod 1000000 < 10 ^ 6" by simp
    from padded_digits [OF _ this] show ?thesis by (simp add: spec_sixDigits_def)
  qed
  finally show ?thesis by (simp only: spec_code_def)
qed

lemma length_spec_code: "length (spec_code d) = 6"
  by (simp add: spec_code_def spec_sixDigits_def)

subsection \<open>The counter\<close>

lemma counter_byte:
  assumes "n < 2 ^ 32"
  shows "(ucast (drop_bit m (word_of_int (int n) :: 32 word)) :: byte) = of_nat (n div 2 ^ m)"
proof -
  have "unat (drop_bit m (word_of_int (int n) :: 32 word)) = drop_bit m (unat (of_nat n :: 32 word))"
    by (simp only: unat_drop_bit_eq of_int_of_nat_eq)
  also have "unat (of_nat n :: 32 word) = n"
    using assms by (simp add: unat_of_nat)
  finally have "unat (drop_bit m (word_of_int (int n) :: 32 word)) = n div 2 ^ m"
    by (simp add: drop_bit_eq_div)
  then have "(of_nat (unat (drop_bit m (word_of_int (int n) :: 32 word))) :: byte) = of_nat (n div 2 ^ m)"
    by simp
  then show ?thesis by (simp only: of_nat_unat)
qed

lemma timeBuffer_spec:
  assumes "0 \<le> w" and "w < 2 ^ 32"
  shows "timeBuffer w = spec_counter (nat w)"
proof -
  let ?n = "nat w"
  from assms have n: "?n < 2 ^ 32" and w: "w = int ?n" by simp_all
  have hi: "?n div 256 ^ k = 0" if "4 \<le> k" for k
  proof -
    have "(2::nat) ^ 32 = 256 ^ 4" by simp
    also have "\<dots> \<le> 256 ^ k" using that by (intro power_increasing) simp_all
    finally have "(2::nat) ^ 32 \<le> 256 ^ k" .
    with n have "?n < 256 ^ k" by (rule less_le_trans)
    then show ?thesis by (rule div_less)
  qed
  have b: "(ucast (drop_bit m (word_of_int w :: 32 word)) :: byte) = of_nat (?n div 2 ^ m)" for m
    using counter_byte [OF n, of m] w by simp
  have u: "(ucast (word_of_int w :: 32 word) :: byte) = of_nat ?n"
    using b [of 0] by simp
  have "spec_counter ?n =
      [of_nat (?n div 256 ^ 7), of_nat (?n div 256 ^ 6), of_nat (?n div 256 ^ 5),
       of_nat (?n div 256 ^ 4), of_nat (?n div 256 ^ 3), of_nat (?n div 256 ^ 2),
       of_nat (?n div 256 ^ 1), of_nat (?n div 256 ^ 0)]"
    by (simp add: spec_counter_def upt_conv_Cons)
  also have "\<dots> = [0, 0, 0, 0, of_nat (?n div 2 ^ 24), of_nat (?n div 2 ^ 16),
       of_nat (?n div 2 ^ 8), of_nat ?n]"
  proof -
    have z: "?n div 256 ^ 7 = 0" "?n div 256 ^ 6 = 0" "?n div 256 ^ 5 = 0" "?n div 256 ^ 4 = 0"
      by (rule hi, simp)+
    have p: "(256::nat) ^ 3 = 2 ^ 24" "(256::nat) ^ 2 = 2 ^ 16" "(256::nat) ^ 1 = 2 ^ 8"
      "?n div 256 ^ 0 = ?n" by simp_all
    show ?thesis by (simp only: z p) simp
  qed
  also have "\<dots> = timeBuffer w"
    by (simp only: timeBuffer_def Let_def b u)
  finally show ?thesis by simp
qed

subsection \<open>Decoding\<close>

text \<open>
  \<open>base32Decode\<close> throws exactly when, before the first character whose upper-case form
  is \<open>=\<close>, there is a character whose upper-case form does not occur in the alphabet as
  a substring.
\<close>

lemma base32Loop_fails:
  "(\<exists>e. base32Loop ev bits val out s = Inl e) \<longleftrightarrow>
   (\<exists>c \<in> set (takeWhile (\<lambda>c. toUpperCase ev [c] \<noteq> str ''='') s).
      indexOf alphabet (toUpperCase ev [c]) = None)"
proof (induction s arbitrary: bits val out)
  case Nil
  then show ?case by simp
next
  case (Cons c cs)
  show ?case
  proof (cases "toUpperCase ev [c] = str ''=''")
    case True
    then show ?thesis by simp
  next
    case False
    show ?thesis
    proof (cases "indexOf alphabet (toUpperCase ev [c])")
      case None
      with False show ?thesis by simp
    next
      case (Some i)
      with False Cons.IH show ?thesis by (simp add: Let_def)
    qed
  qed
qed

lemma base32Decode_fails:
  "(\<exists>e. base32Decode ev s = Inl e) \<longleftrightarrow>
   (\<exists>c \<in> set (takeWhile (\<lambda>c. toUpperCase ev [c] \<noteq> str ''='') s).
      indexOf alphabet (toUpperCase ev [c]) = None)"
  unfolding base32Decode_def by (rule base32Loop_fails)

subsection \<open>The cache\<close>

lemma cacheOk_lookup:
  assumes "cacheOk ev h cache" and "map_of cache secret = Some e"
  shows "entryOk ev h (secret, e)"
proof -
  from assms(2) have "(secret, e) \<in> set cache" by (rule map_of_SomeD)
  with assms(1) show ?thesis by (simp add: cacheOk_def list_all_iff)
qed

lemma update_length: "length (AList.update k v al) \<le> Suc (length al)"
  by (induction al) auto

lemma update_set: "x \<in> set (AList.update k v al) \<Longrightarrow> x = (k, v) \<or> x \<in> set al"
  by (induction al) (auto split: if_splits)

lemma update_keeps: "(s, e) \<in> set al \<Longrightarrow> s \<noteq> k \<Longrightarrow> (s, e) \<in> set (AList.update k v al)"
  by (induction al) auto

lemma update_new_key: "k \<notin> fst ` set al \<Longrightarrow> AList.update k v al = al @ [(k, v)]"
  by (induction al) auto

lemma aggressive_length: "length (aggressiveCleanCache now c) \<le> MAX_CACHE_SIZE"
  by (simp add: aggressiveCleanCache_def Let_def)

lemma aggressive_set: "set (aggressiveCleanCache now c) \<subseteq> set c"
  by (auto simp: aggressiveCleanCache_def Let_def)

lemma aggressive_distinct:
  "distinct (map fst c) \<Longrightarrow> distinct (map fst (aggressiveCleanCache now c))"
  by (simp add: aggressiveCleanCache_def Let_def distinct_map_filter)

text \<open>The three ways a call of \<open>generate\<close> can go.\<close>

lemma generate_outcome:
  obtains (hit) e where "map_of cache secret = Some e"
      "timeWindow e = getCurrentTimeWindow now"
      "generate ev h now now' secret cache = (code e, cache)"
  | (failed) "generate ev h now now' secret cache = (str ''Error'', cache)"
      "(\<exists>err. base32Decode ev secret = Inl err) \<or>
       (\<exists>key. base32Decode ev secret = Inr key \<and> h key (timeBuffer (getCurrentTimeWindow now)) = None)"
  | (fresh) key hmac where "base32Decode ev secret = Inr key"
      "h key (timeBuffer (getCurrentTimeWindow now)) = Some hmac"
      "\<not> (\<exists>e. map_of cache secret = Some e \<and> timeWindow e = getCurrentTimeWindow now)"
      "generate ev h now now' secret cache =
         (totpCode hmac,
          let cache' = AList.update secret
                         \<lparr>code = totpCode hmac, timeWindow = getCurrentTimeWindow now\<rparr> cache
          in if length cache' > MAX_CACHE_SIZE then aggressiveCleanCache now' cache' else cache')"
proof (cases "\<exists>e. map_of cache secret = Some e \<and> timeWindow e = getCurrentTimeWindow now")
  case True
  then obtain e where e: "map_of cache secret = Some e" "timeWindow e = getCurrentTimeWindow now"
    by blast
  then have "generate ev h now now' secret cache = (code e, cache)"
    by (simp add: generate_def Let_def)
  with e show ?thesis by (rule hit)
next
  case nohit: False
  then have c: "\<not> (map_of cache secret \<noteq> None \<and>
      timeWindow (the (map_of cache secret)) = getCurrentTimeWindow now)"
    by auto
  show ?thesis
  proof (cases "base32Decode ev secret")
    case (Inl err)
    with c have "generate ev h now now' secret cache = (str ''Error'', cache)"
      by (auto simp: generate_def Let_def)
    then show ?thesis using Inl by (intro failed) auto
  next
    case (Inr key)
    show ?thesis
    proof (cases "h key (timeBuffer (getCurrentTimeWindow now))")
      case None
      with c Inr have "generate ev h now now' secret cache = (str ''Error'', cache)"
        by (auto simp: generate_def Let_def)
      then show ?thesis using Inr None by (intro failed) auto
    next
      case (Some hmac)
      with c Inr have "generate ev h now now' secret cache =
         (totpCode hmac,
          let cache' = AList.update secret
                         \<lparr>code = totpCode hmac, timeWindow = getCurrentTimeWindow now\<rparr> cache
          in if length cache' > MAX_CACHE_SIZE then aggressiveCleanCache now' cache' else cache')"
        by (auto simp: generate_def Let_def)
      with Inr Some nohit show ?thesis by (rule fresh)
    qed
  qed
qed

lemma generate_value:
  assumes ok: "cacheOk ev h cache" and dec: "base32Decode ev secret = Inr key"
    and dig: "h key (timeBuffer (getCurrentTimeWindow now)) = Some digest"
  shows "fst (generate ev h now now' secret cache) = totpCode digest"
proof (cases rule: generate_outcome [of cache secret now ev h now'])
  case (hit e)
  from cacheOk_lookup [OF ok hit(1)] dec dig hit(2) have "code e = totpCode digest"
    by (simp add: entryOk_def)
  with hit(3) show ?thesis by simp
next
  case failed
  with dec dig show ?thesis by auto
next
  case (fresh key' hmac)
  with dec dig show ?thesis by simp
qed

lemma generate_cacheOk:
  assumes ok: "cacheOk ev h cache"
  shows "cacheOk ev h (snd (generate ev h now now' secret cache))"
proof (cases rule: generate_outcome [of cache secret now ev h now'])
  case (hit e)
  with ok show ?thesis by simp
next
  case failed
  with ok show ?thesis by simp
next
  case (fresh key hmac)
  let ?v = "\<lparr>code = totpCode hmac, timeWindow = getCurrentTimeWindow now\<rparr>"
  let ?c = "AList.update secret ?v cache"
  have new: "entryOk ev h (secret, ?v)"
    using fresh(1,2) by (simp add: entryOk_def)
  have c: "cacheOk ev h ?c"
    unfolding cacheOk_def list_all_iff
  proof
    fix x assume "x \<in> set ?c"
    then have "x = (secret, ?v) \<or> x \<in> set cache" by (rule update_set)
    with new ok show "entryOk ev h x" by (auto simp: cacheOk_def list_all_iff)
  qed
  then have "cacheOk ev h (aggressiveCleanCache now' ?c)"
    using aggressive_set [of now' ?c] by (auto simp: cacheOk_def list_all_iff)
  with c fresh(4) show ?thesis by (simp add: Let_def)
qed

text \<open>The keys of the cache stay distinct, so its length is the \<open>size\<close> of the \<open>Map\<close>.\<close>

lemma generate_distinct:
  assumes "distinct (map fst cache)"
  shows "distinct (map fst (snd (generate ev h now now' secret cache)))"
proof (cases rule: generate_outcome [of cache secret now ev h now'])
  case (hit e)
  with assms show ?thesis by simp
next
  case failed
  with assms show ?thesis by simp
next
  case (fresh key hmac)
  let ?c = "AList.update secret
              \<lparr>code = totpCode hmac, timeWindow = getCurrentTimeWindow now\<rparr> cache"
  from assms have "distinct (map fst ?c)" by (rule distinct_update)
  then show ?thesis
    using fresh(4) by (simp add: Let_def aggressive_distinct)
qed

text \<open>
  A decode error does not leave \<open>generate\<close>: when \<open>base32Decode\<close> throws on the secret,
  a call with a sound cache returns \<open>'Error'\<close> and the cache as it was.
\<close>

lemma generate_decode_error:
  assumes "cacheOk ev hmacSha1 cache"
    and "\<exists>c \<in> set (takeWhile (\<lambda>c. toUpperCase ev [c] \<noteq> str ''='') secret).
           indexOf alphabet (toUpperCase ev [c]) = None"
  shows "base32Decode ev secret = Inl InvalidBase32Character \<and>
         generate ev hmacSha1 now now' secret cache = (str ''Error'', cache)"
proof -
  from assms(2) obtain e where "base32Decode ev secret = Inl e"
    using base32Decode_fails [of ev secret] by blast
  then have dec: "base32Decode ev secret = Inl InvalidBase32Character"
    by (cases e) simp_all
  have "generate ev hmacSha1 now now' secret cache = (str ''Error'', cache)"
  proof (cases rule: generate_outcome [of cache secret now ev hmacSha1 now'])
    case (hit e)
    from cacheOk_lookup [OF assms(1) hit(1)] dec show ?thesis
      by (simp add: entryOk_def)
  next
    case failed
    then show ?thesis by simp
  next
    case (fresh key hmac)
    with dec show ?thesis by simp
  qed
  with dec show ?thesis by simp
qed

subsection \<open>Example values\<close>

lemma upper_example: "toUpperCase exampleEnv [c] = upperUnit c"
  by (simp add: exampleEnv_def)

lemmas base32_eval = base32Decode_def upper_example upperUnit_def str_def alphabet_def Let_def

lemma decode_shortSecret: "base32Decode exampleEnv (str ''GEZDGNBVGY3TQOJQ'') = Inr shortKey"
  by (simp add: base32_eval shortKey_def)

lemma decode_secretB: "base32Decode exampleEnv secretB = Inr rfcKey"
  by (simp add: base32_eval secretB_def rfcKey_def)

lemma decode_ligatureSecret: "base32Decode exampleEnv ligatureSecret = Inr shortKey"
  by (simp add: base32_eval ligatureSecret_def shortKey_def)

lemma decode_A: "base32Decode exampleEnv (str ''A'') = Inr []"
  by (simp add: base32_eval)

lemma window_examples: "getCurrentTimeWindow 0 = 0" "getCurrentTimeWindow 30000 = 1"
  "getCurrentTimeWindow 30001 = 1"
  by (simp_all add: getCurrentTimeWindow_def)

lemma timeBuffer_examples: "timeBuffer 0 = [0, 0, 0, 0, 0, 0, 0, 0]"
  "timeBuffer 1 = [0, 0, 0, 0, 0, 0, 0, 1]"
  by (simp_all add: timeBuffer_def)

lemma spec_code_examples: "spec_code rfcDigest0 = str ''755224''"
  "spec_code rfcDigest1 = str ''287082''" "spec_code shortDigest0 = str ''891490''"
  by (simp_all add: spec_code_def spec_truncate_def spec_sixDigits_def rfcDigest0_def
      rfcDigest1_def shortDigest0_def digitChar_def str_def upt_conv_Cons)

lemma exampleHmac_examples: "exampleHmac rfcKey [0, 0, 0, 0, 0, 0, 0, 0] = Some rfcDigest0"
  "exampleHmac rfcKey [0, 0, 0, 0, 0, 0, 0, 1] = Some rfcDigest1"
  "exampleHmac shortKey [0, 0, 0, 0, 0, 0, 0, 0] = Some shortDigest0"
  "exampleHmac [] m = None"
  by (simp_all add: exampleHmac_def rfcKey_def shortKey_def)

lemma totpCode_examples: "totpCode rfcDigest0 = str ''755224''"
  "totpCode rfcDigest1 = str ''287082''" "totpCode shortDigest0 = str ''891490''"
proof -
  have "length rfcDigest0 = 20" by (simp add: rfcDigest0_def)
  then have "totpCode rfcDigest0 = spec_code rfcDigest0" by (rule totpCode_spec)
  then show "totpCode rfcDigest0 = str ''755224''" by (simp only: spec_code_examples)
  have "length rfcDigest1 = 20" by (simp add: rfcDigest1_def)
  then have "totpCode rfcDigest1 = spec_code rfcDigest1" by (rule totpCode_spec)
  then show "totpCode rfcDigest1 = str ''287082''" by (simp only: spec_code_examples)
  have "length shortDigest0 = 20" by (simp add: shortDigest0_def)
  then have "totpCode shortDigest0 = spec_code shortDigest0" by (rule totpCode_spec)
  then show "totpCode shortDigest0 = str ''891490''" by (simp only: spec_code_examples)
qed

lemma warmCache_ok: "cacheOk exampleEnv exampleHmac warmCache"
  by (simp add: cacheOk_def warmCache_def entryOk_def decode_secretB timeBuffer_examples
      exampleHmac_examples totpCode_examples)

lemma generate_decode_error_example:
  "cacheOk exampleEnv exampleHmac warmCache \<and>
   base32Decode exampleEnv invalidSecret = Inl InvalidBase32Character \<and>
   generate exampleEnv exampleHmac 0 0 invalidSecret warmCache = (str ''Error'', warmCache)"
proof -
  have h2: "\<exists>c \<in> set (takeWhile (\<lambda>c. toUpperCase exampleEnv [c] \<noteq> str ''='') invalidSecret).
      indexOf alphabet (toUpperCase exampleEnv [c]) = None"
    by (simp add: invalidSecret_def upper_example upperUnit_def str_def alphabet_def)
  from generate_decode_error [OF warmCache_ok h2, of 0 0] warmCache_ok
  show ?thesis by simp
qed

lemma length_digitsOf_small: "n < 100 \<Longrightarrow> length (digitsOf n) \<le> 2"
  using padded_digits [of 2 n] by simp

lemma filledCache_length: "length (filledCache w) = 100"
  by (simp add: filledCache_def)

lemma filledCache_facts:
  "map_of (filledCache w) secretB = None"
  "AList.update secretB v (filledCache w) = filledCache w @ [(secretB, v)]"
  "filter (\<lambda>(secret, data). timeWindow data = 1) (filledCache 0) = []"
  "filter (\<lambda>(secret, data). timeWindow data = 1) (filledCache 1) = filledCache 1"
proof -
  have n: "secretB \<notin> fst ` set (filledCache w)"
  proof
    assume "secretB \<in> fst ` set (filledCache w)"
    then obtain i where i: "i < 100" "secretB = digitsOf i"
      by (auto simp: filledCache_def)
    from length_digitsOf_small [OF i(1)] i(2) have "length secretB \<le> 2" by simp
    then show False by (simp add: secretB_def str_def)
  qed
  then show "map_of (filledCache w) secretB = None" by (simp add: map_of_eq_None_iff)
  from n show "AList.update secretB v (filledCache w) = filledCache w @ [(secretB, v)]"
    by (rule update_new_key)
  show "filter (\<lambda>(secret, data). timeWindow data = 1) (filledCache 0) = []"
    by (simp add: filledCache_def filter_empty_conv)
  show "filter (\<lambda>(secret, data). timeWindow data = 1) (filledCache 1) = filledCache 1"
    by (simp add: filledCache_def filter_id_conv)
qed

subsection \<open>The generated code\<close>

text \<open>
  Claim C6, as the code has it. Let the cache be sound, let the secret decode to \<open>key\<close>,
  and let HMAC-SHA1 of the key and the counter of the current window be a digest of 20
  bytes, which the Web Crypto API delivers for every key of at least one byte. Then
  \<open>generate\<close> returns the six-character code of RFC 4226: the digest truncated at the
  offset given by the low nibble of byte 19, four bytes with the top bit masked, modulo
  one million, as six decimal digits. For a window below \<open>2^32\<close> the counter is the window
  as eight bytes, most significant first. The cache stays sound, and every call in the
  same window, from any sound cache, returns the same string.
\<close>

theorem C6_generate_rfc4226:
  assumes "cacheOk ev hmacSha1 cache" and "base32Decode ev secret = Inr key"
    and "hmacSha1 key (timeBuffer (getCurrentTimeWindow now)) = Some digest"
    and "length digest = 20"
  shows "fst (generate ev hmacSha1 now now' secret cache) = spec_code digest \<and>
         length (fst (generate ev hmacSha1 now now' secret cache)) = 6 \<and>
         (0 \<le> getCurrentTimeWindow now \<and> getCurrentTimeWindow now < 2 ^ 32 \<longrightarrow>
            timeBuffer (getCurrentTimeWindow now) = spec_counter (nat (getCurrentTimeWindow now))) \<and>
         cacheOk ev hmacSha1 (snd (generate ev hmacSha1 now now' secret cache)) \<and>
         (\<forall>now2 now2' cache2.
            cacheOk ev hmacSha1 cache2 \<and> getCurrentTimeWindow now2 = getCurrentTimeWindow now \<longrightarrow>
            fst (generate ev hmacSha1 now2 now2' secret cache2)
              = fst (generate ev hmacSha1 now now' secret cache))"
proof -
  have v: "fst (generate ev hmacSha1 now now' secret cache) = spec_code digest"
    using generate_value [OF assms(1-3)] totpCode_spec [OF assms(4)] by simp
  have "fst (generate ev hmacSha1 now2 now2' secret cache2) = spec_code digest"
    if "cacheOk ev hmacSha1 cache2" and "getCurrentTimeWindow now2 = getCurrentTimeWindow now"
    for now2 now2' cache2
    using generate_value [OF that(1) assms(2), of now2 digest now2'] assms(3) that(2)
      totpCode_spec [OF assms(4)] by simp
  with v show ?thesis
    using timeBuffer_spec generate_cacheOk [OF assms(1)] by (simp add: length_spec_code)
qed

text \<open>The second row of the RFC 4226 test vectors, in the window 1.\<close>

theorem C6_witness:
  "cacheOk exampleEnv exampleHmac [] \<and> base32Decode exampleEnv secretB = Inr rfcKey \<and>
   exampleHmac rfcKey (timeBuffer (getCurrentTimeWindow 30000)) = Some rfcDigest1 \<and>
   length rfcDigest1 = 20 \<and>
   fst (generate exampleEnv exampleHmac 30000 30001 secretB []) = str ''287082'' \<and>
   timeBuffer (getCurrentTimeWindow 30000) = spec_counter 1"
proof -
  have h1: "cacheOk exampleEnv exampleHmac []" by (simp add: cacheOk_def)
  have h3: "exampleHmac rfcKey (timeBuffer (getCurrentTimeWindow 30000)) = Some rfcDigest1"
    by (simp only: window_examples timeBuffer_examples exampleHmac_examples)
  have h4: "length rfcDigest1 = 20" by (simp add: rfcDigest1_def)
  from C6_generate_rfc4226 [OF h1 decode_secretB h3 h4, of 30001] h1 decode_secretB h3 h4
  show ?thesis by (simp add: spec_code_examples window_examples)
qed

text \<open>
  The claim as stated fails for a secret that decodes to no bytes. The secret \<open>A\<close> is
  decoded without an error, to the empty key: five bits are read and no byte is written.
  \<open>importKey\<close> rejects the empty key, the \<open>catch\<close> block takes the rejection, and
  \<open>generate\<close> returns \<open>'Error'\<close>, a string of five characters, not a code.
\<close>

theorem C6_counterexample:
  "base32Decode exampleEnv (str ''A'') = Inr [] \<and>
   exampleHmac [] (timeBuffer (getCurrentTimeWindow 0)) = None \<and>
   generate exampleEnv exampleHmac 0 0 (str ''A'') [] = (str ''Error'', []) \<and>
   length (fst (generate exampleEnv exampleHmac 0 0 (str ''A'') [])) \<noteq> 6"
proof -
  have g: "generate exampleEnv exampleHmac 0 0 (str ''A'') [] = (str ''Error'', [])"
    by (simp add: generate_def decode_A exampleHmac_examples)
  have l: "length (str ''Error'') \<noteq> 6" by (simp add: str_def)
  from g l decode_A exampleHmac_examples(4) show ?thesis by simp
qed

subsection \<open>A character outside the alphabet that is decoded\<close>

text \<open>
  Claim C7 fails on the secret \<open>GEZDGNBVGY3TQOJQ\<close> followed by the ligature U+FB06. The
  ligature is not a character of the Base32 alphabet, in either case. Its upper-case form
  is the two letters \<open>ST\<close>, which \<open>alphabet.indexOf\<close> finds in the alphabet as a substring
  at index 18, the index of \<open>S\<close>. So \<open>base32Decode\<close> does not throw: it decodes the secret
  to the ten bytes of \<open>1234567890\<close>, and \<open>generate\<close>, called in the window 0 with an
  empty cache, returns the code \<open>891490\<close> and caches it, where the claim has \<open>'Error'\<close>.
\<close>

theorem C7_ligature_is_decoded:
  "toUpperCase exampleEnv [0xFB06] = str ''ST'' \<and>
   str ''ST'' \<notin> set (map (\<lambda>c. [c]) alphabet) \<and>
   indexOf alphabet (str ''ST'') = Some 18 \<and>
   base32Decode exampleEnv ligatureSecret = Inr shortKey \<and>
   generate exampleEnv exampleHmac 0 0 ligatureSecret [] =
     (str ''891490'', [(ligatureSecret, \<lparr>code = str ''891490'', timeWindow = 0\<rparr>)]) \<and>
   fst (generate exampleEnv exampleHmac 0 0 ligatureSecret []) \<noteq> str ''Error''"
proof -
  have 1: "toUpperCase exampleEnv [0xFB06] = str ''ST''"
    by (simp add: upper_example upperUnit_def)
  have 2: "str ''ST'' \<notin> set (map (\<lambda>c. [c]) alphabet)"
    by (simp add: str_def alphabet_def)
  have 3: "indexOf alphabet (str ''ST'') = Some 18"
    by (simp add: str_def alphabet_def)
  have 4: "generate exampleEnv exampleHmac 0 0 ligatureSecret [] =
     (str ''891490'', [(ligatureSecret, \<lparr>code = str ''891490'', timeWindow = 0\<rparr>)])"
    by (simp add: generate_def decode_ligatureSecret window_examples timeBuffer_examples
        exampleHmac_examples totpCode_examples MAX_CACHE_SIZE_def Let_def)
  have 5: "str ''891490'' \<noteq> str ''Error''" by (simp add: str_def)
  from 1 2 3 4 5 decode_ligatureSecret show ?thesis by simp
qed

subsection \<open>The size of the cache\<close>

text \<open>
  Claim C8. A cache of at most 100 entries has at most 100 entries after \<open>generate\<close>,
  and the cache after the call is determined as follows. A hit leaves the cache as it is:
  nothing records when an entry was last used. So does a call that fails, the secret not
  decoding or the HMAC being rejected. Otherwise the new entry is set under the secret.
  If that leaves no more than 100 entries, this is the cache after the call. If it leaves
  more than 100, every entry whose window is not the window at the time of the clean-up
  is removed, all others are kept, and if more than 100 remain the cache is emptied.
  Hence every entry after the call is an entry from before the call or belongs to the
  secret of the call, and an entry of another secret disappears only when the insertion
  made the cache larger than 100, and then only if its window is not the current one or
  if the whole cache was cleared.
\<close>

theorem C8_cache_bounded:
  assumes "length cache \<le> MAX_CACHE_SIZE"
  shows "length (snd (generate ev hmacSha1 now now' secret cache)) \<le> MAX_CACHE_SIZE \<and>
         (\<forall>e. map_of cache secret = Some e \<and> timeWindow e = getCurrentTimeWindow now \<longrightarrow>
            snd (generate ev hmacSha1 now now' secret cache) = cache) \<and>
         ((\<forall>key. base32Decode ev secret = Inr key \<longrightarrow>
              hmacSha1 key (timeBuffer (getCurrentTimeWindow now)) = None) \<longrightarrow>
            snd (generate ev hmacSha1 now now' secret cache) = cache) \<and>
         (\<forall>key hmac.
            \<not> (\<exists>e. map_of cache secret = Some e \<and> timeWindow e = getCurrentTimeWindow now) \<and>
            base32Decode ev secret = Inr key \<and>
            hmacSha1 key (timeBuffer (getCurrentTimeWindow now)) = Some hmac \<longrightarrow>
            (let inserted = AList.update secret
                              \<lparr>code = totpCode hmac, timeWindow = getCurrentTimeWindow now\<rparr> cache;
                 current = filter (\<lambda>(s, e). timeWindow e = getCurrentTimeWindow now') inserted
             in snd (generate ev hmacSha1 now now' secret cache) =
                  (if length inserted \<le> MAX_CACHE_SIZE then inserted
                   else if length current \<le> MAX_CACHE_SIZE then current
                   else []))) \<and>
         (\<forall>x \<in> set (snd (generate ev hmacSha1 now now' secret cache)). x \<in> set cache \<or> fst x = secret) \<and>
         (\<forall>x \<in> set cache. fst x \<noteq> secret \<longrightarrow>
            x \<in> set (snd (generate ev hmacSha1 now now' secret cache)) \<or>
            MAX_CACHE_SIZE < Suc (length cache) \<and>
            (timeWindow (snd x) \<noteq> getCurrentTimeWindow now' \<or>
             snd (generate ev hmacSha1 now now' secret cache) = []))"
proof -
  let ?w = "getCurrentTimeWindow now"
  let ?R = "snd (generate ev hmacSha1 now now' secret cache)"
  let ?hit = "\<exists>e. map_of cache secret = Some e \<and> timeWindow e = ?w"
  let ?policy = "\<lambda>inserted.
      (if length inserted \<le> MAX_CACHE_SIZE then inserted
       else if length (filter (\<lambda>(s, e). timeWindow e = getCurrentTimeWindow now') inserted)
                 \<le> MAX_CACHE_SIZE
            then filter (\<lambda>(s, e). timeWindow e = getCurrentTimeWindow now') inserted
            else [])"
  have policy: "(if length c > MAX_CACHE_SIZE then aggressiveCleanCache now' c else c) = ?policy c" for c
    by (simp add: aggressiveCleanCache_def Let_def)
  have A: "length ?R \<le> MAX_CACHE_SIZE
      \<and> (\<forall>e. map_of cache secret = Some e \<and> timeWindow e = ?w \<longrightarrow> ?R = cache)
      \<and> ((\<forall>key. base32Decode ev secret = Inr key \<longrightarrow> hmacSha1 key (timeBuffer ?w) = None)
            \<longrightarrow> ?R = cache)
      \<and> (\<forall>key hmac. \<not> ?hit \<and> base32Decode ev secret = Inr key \<and>
            hmacSha1 key (timeBuffer ?w) = Some hmac \<longrightarrow>
            ?R = ?policy (AList.update secret \<lparr>code = totpCode hmac, timeWindow = ?w\<rparr> cache))"
  proof (cases rule: generate_outcome [of cache secret now ev hmacSha1 now'])
    case (hit e)
    with assms show ?thesis by auto
  next
    case failed
    with assms show ?thesis by auto
  next
    case (fresh key hmac)
    let ?c = "AList.update secret \<lparr>code = totpCode hmac, timeWindow = ?w\<rparr> cache"
    have R: "?R = ?policy ?c"
      using fresh(4) policy [of ?c] by (simp add: Let_def)
    have "length (?policy ?c) \<le> MAX_CACHE_SIZE" by simp
    with R have 1: "length ?R \<le> MAX_CACHE_SIZE" by simp
    from fresh(3) have 2: "\<forall>e. map_of cache secret = Some e \<and> timeWindow e = ?w \<longrightarrow> ?R = cache"
      by blast
    from fresh(1,2) have 3: "(\<forall>key. base32Decode ev secret = Inr key \<longrightarrow>
        hmacSha1 key (timeBuffer ?w) = None) \<longrightarrow> ?R = cache"
      by auto
    have 4: "\<forall>key' hmac'. \<not> ?hit \<and> base32Decode ev secret = Inr key' \<and>
        hmacSha1 key' (timeBuffer ?w) = Some hmac' \<longrightarrow>
        ?R = ?policy (AList.update secret \<lparr>code = totpCode hmac', timeWindow = ?w\<rparr> cache)"
      using fresh(1,2) R by auto
    from 1 2 3 4 show ?thesis by blast
  qed
  have B: "(\<forall>x \<in> set ?R. x \<in> set cache \<or> fst x = secret) \<and>
      (\<forall>x \<in> set cache. fst x \<noteq> secret \<longrightarrow>
         x \<in> set ?R \<or> MAX_CACHE_SIZE < Suc (length cache) \<and>
         (timeWindow (snd x) \<noteq> getCurrentTimeWindow now' \<or> ?R = []))"
  proof (cases rule: generate_outcome [of cache secret now ev hmacSha1 now'])
    case (hit e)
    then show ?thesis by simp
  next
    case failed
    then show ?thesis by simp
  next
    case (fresh key hmac)
    let ?v = "\<lparr>code = totpCode hmac, timeWindow = ?w\<rparr>"
    let ?c = "AList.update secret ?v cache"
    have R: "?R = (if length ?c > MAX_CACHE_SIZE then aggressiveCleanCache now' ?c else ?c)"
      using fresh(4) by (simp add: Let_def)
    have sub: "set ?R \<subseteq> set ?c"
      unfolding R using aggressive_set [of now' ?c] by simp
    have 2: "\<forall>x \<in> set ?R. x \<in> set cache \<or> fst x = secret"
    proof
      fix x assume "x \<in> set ?R"
      with sub have "x \<in> set ?c" by blast
      then have "x = (secret, ?v) \<or> x \<in> set cache" by (rule update_set)
      then show "x \<in> set cache \<or> fst x = secret" by auto
    qed
    have 3: "x \<in> set ?R \<or> MAX_CACHE_SIZE < Suc (length cache) \<and>
              (timeWindow (snd x) \<noteq> getCurrentTimeWindow now' \<or> ?R = [])"
      if x: "x \<in> set cache" "fst x \<noteq> secret" for x
    proof -
      from x have in_c: "x \<in> set ?c"
        using update_keeps [of "fst x" "snd x" cache secret ?v] by simp
      show ?thesis
      proof (cases "length ?c > MAX_CACHE_SIZE")
        case False
        with R in_c show ?thesis by simp
      next
        case True
        with update_length [of secret ?v cache] have big: "MAX_CACHE_SIZE < Suc (length cache)"
          by simp
        from True R have "?R = aggressiveCleanCache now' ?c" by simp
        then have "x \<in> set ?R \<or> timeWindow (snd x) \<noteq> getCurrentTimeWindow now' \<or> ?R = []"
          using in_c by (cases x) (auto simp: aggressiveCleanCache_def Let_def split: if_splits)
        with big show ?thesis by blast
      qed
    qed
    from 2 3 show ?thesis by blast
  qed
  from A B show ?thesis by (simp only: Let_def) blast
qed

text \<open>
  Five calls. A cache of 100 entries of window 0 and a call for a new secret in window 1:
  the insertion makes 101 entries and the clean-up removes the 100 stale ones. The same
  call on 100 entries of window 1: all 101 entries are current and the cache is emptied.
  A hit and a failing call on a cache of one entry leave it as it is, and a call in the
  next window replaces the entry.
\<close>

theorem C8_witness:
  "length (filledCache 0) \<le> MAX_CACHE_SIZE \<and> length (filledCache 1) \<le> MAX_CACHE_SIZE \<and>
   length (AList.update secretB \<lparr>code = str ''287082'', timeWindow = 1\<rparr> (filledCache 0)) = 101 \<and>
   snd (generate exampleEnv exampleHmac 30000 30001 secretB (filledCache 0))
     = [(secretB, \<lparr>code = str ''287082'', timeWindow = 1\<rparr>)] \<and>
   snd (generate exampleEnv exampleHmac 30000 30001 secretB (filledCache 1)) = [] \<and>
   snd (generate exampleEnv exampleHmac 0 0 secretB warmCache) = warmCache \<and>
   snd (generate exampleEnv exampleHmac 0 0 (str ''A'') warmCache) = warmCache \<and>
   snd (generate exampleEnv exampleHmac 30000 30001 secretB warmCache)
     = [(secretB, \<lparr>code = str ''287082'', timeWindow = 1\<rparr>)]"
proof -
  have h0: "length (filledCache 0) \<le> MAX_CACHE_SIZE"
    by (simp add: filledCache_length MAX_CACHE_SIZE_def)
  have h1: "length (filledCache 1) \<le> MAX_CACHE_SIZE"
    by (simp add: filledCache_length MAX_CACHE_SIZE_def)
  have hw: "length warmCache \<le> MAX_CACHE_SIZE"
    by (simp add: warmCache_def MAX_CACHE_SIZE_def)
  have miss: "\<not> (\<exists>e. map_of (filledCache w) secretB = Some e \<and> timeWindow e = 1)" for w
    by (simp add: filledCache_facts)
  have hm: "exampleHmac rfcKey (timeBuffer (getCurrentTimeWindow 30000)) = Some rfcDigest1"
    by (simp only: window_examples timeBuffer_examples exampleHmac_examples)
  have len: "length (AList.update secretB \<lparr>code = str ''287082'', timeWindow = 1\<rparr> (filledCache 0)) = 101"
    by (simp add: filledCache_facts filledCache_length)
  have r0: "snd (generate exampleEnv exampleHmac 30000 30001 secretB (filledCache 0))
     = [(secretB, \<lparr>code = str ''287082'', timeWindow = 1\<rparr>)]"
    using C8_cache_bounded [OF h0, of exampleEnv exampleHmac 30000 30001 secretB]
      miss [of 0] hm
    by (simp add: decode_secretB window_examples totpCode_examples filledCache_facts
        filledCache_length MAX_CACHE_SIZE_def Let_def)
  have r1: "snd (generate exampleEnv exampleHmac 30000 30001 secretB (filledCache 1)) = []"
    using C8_cache_bounded [OF h1, of exampleEnv exampleHmac 30000 30001 secretB]
      miss [of 1] hm
    by (simp add: decode_secretB window_examples totpCode_examples filledCache_facts
        filledCache_length MAX_CACHE_SIZE_def Let_def)
  have r2: "snd (generate exampleEnv exampleHmac 0 0 secretB warmCache) = warmCache"
    using C8_cache_bounded [OF hw, of exampleEnv exampleHmac 0 0 secretB]
    by (simp add: warmCache_def window_examples)
  have r3: "snd (generate exampleEnv exampleHmac 0 0 (str ''A'') warmCache) = warmCache"
    using C8_cache_bounded [OF hw, of exampleEnv exampleHmac 0 0 "str ''A''"]
    by (simp add: decode_A exampleHmac_examples)
  have r4: "snd (generate exampleEnv exampleHmac 30000 30001 secretB warmCache)
     = [(secretB, \<lparr>code = str ''287082'', timeWindow = 1\<rparr>)]"
    using C8_cache_bounded [OF hw, of exampleEnv exampleHmac 30000 30001 secretB] hm
    by (simp add: warmCache_def decode_secretB window_examples totpCode_examples
        MAX_CACHE_SIZE_def Let_def)
  from h0 h1 len r0 r1 r2 r3 r4 show ?thesis by simp
qed

section \<open>Properties of the delimiter detection\<close>

subsection \<open>The first element of a stable sort\<close>

lemma hd_insort_key:
  "hd (insort_key f x ys) = (if ys = [] \<or> f x \<le> f (hd ys) then x else hd ys)"
  by (cases ys) auto

lemma sort_key_Nil_iff: "sort_key f xs = [] \<longleftrightarrow> xs = []"
  by (metis length_sort length_0_conv)

text \<open>
  The head of the stably sorted list is the first element of the list whose key is least.
\<close>

lemma find_first_least:
  "xs \<noteq> [] \<Longrightarrow> find (\<lambda>x. \<forall>y \<in> set xs. f x \<le> f y) xs = Some (hd (sort_key f xs))"
proof (induction xs)
  case Nil
  then show ?case by simp
next
  case (Cons x xs)
  show ?case
  proof (cases "xs = []")
    case True
    then show ?thesis by simp
  next
    case False
    let ?h = "hd (sort_key f xs)"
    from Cons.IH [OF False] have IH: "find (\<lambda>z. \<forall>y \<in> set xs. f z \<le> f y) xs = Some ?h" .
    then have h: "?h \<in> set xs" "\<forall>y \<in> set xs. f ?h \<le> f y"
      by (auto simp: find_Some_iff)
    have ne: "sort_key f xs \<noteq> []" using False by (simp add: sort_key_Nil_iff)
    have hd: "hd (sort_key f (x # xs)) = (if f x \<le> f ?h then x else ?h)"
      using ne by (simp add: hd_insort_key)
    show ?thesis
    proof (cases "f x \<le> f ?h")
      case True
      with h(2) have "\<forall>y \<in> set (x # xs). f x \<le> f y" by auto
      with True hd show ?thesis by simp
    next
      case gt: False
      with h(1) have nx: "\<not> (\<forall>y \<in> set (x # xs). f x \<le> f y)" by auto
      have "find (\<lambda>z. \<forall>y \<in> set (x # xs). f z \<le> f y) xs
          = find (\<lambda>z. \<forall>y \<in> set xs. f z \<le> f y) xs"
      proof (rule find_cong [OF refl])
        fix z assume "z \<in> set xs"
        show "(\<forall>y \<in> set (x # xs). f z \<le> f y) = (\<forall>y \<in> set xs. f z \<le> f y)"
        proof
          assume "\<forall>y \<in> set xs. f z \<le> f y"
          with h(1) have "f z \<le> f ?h" by blast
          with gt have "f z \<le> f x" by simp
          with \<open>\<forall>y \<in> set xs. f z \<le> f y\<close> show "\<forall>y \<in> set (x # xs). f z \<le> f y" by simp
        qed simp
      qed
      moreover have "find (\<lambda>z. \<forall>y \<in> set (x # xs). f z \<le> f y) (x # xs)
          = find (\<lambda>z. \<forall>y \<in> set (x # xs). f z \<le> f y) xs"
        by (subst find.simps) (simp only: nx if_False)
      moreover have "hd (sort_key f (x # xs)) = ?h"
        using hd gt by simp
      ultimately show ?thesis using IH by (simp only:)
    qed
  qed
qed

lemma find_map_conv: "find P (map g xs) = map_option g (find (\<lambda>x. P (g x)) xs)"
  by (induction xs) auto

lemma length_previewLines: "length (previewLines content) \<le> 3"
  by (simp add: previewLines_def)

lemma score_Nil: "score [] d = 0"
  by (simp add: score_def)

subsection \<open>The detected delimiter\<close>

text \<open>
  Claim C9. \<open>detectDelimiter\<close> looks at no more than three lines, those that are not
  blank and do not start with \<open>#\<close>; the score of a candidate is the number of these lines
  that it splits into at least three parts. The result is \<open>null\<close> exactly when every
  candidate of the list \<open>|\<close>, \<open>:\<close>, \<open>;\<close>, \<open>;;;\<close>, \<open>;;\<close>, tab, comma has score 0, and
  otherwise the first candidate of the list whose score no other candidate exceeds.
\<close>

theorem C9_detectDelimiter:
  "detectDelimiter content =
     (if \<forall>d \<in> set delimiters. score (previewLines content) d = 0 then None
      else find (\<lambda>d. \<forall>d' \<in> set delimiters.
                     score (previewLines content) d' \<le> score (previewLines content) d) delimiters) \<and>
   length (previewLines content) \<le> 3"
proof -
  let ?ls = "previewLines content"
  let ?sc = "score ?ls"
  let ?scores = "map (\<lambda>delim. (delim, ?sc delim)) delimiters"
  let ?key = "\<lambda>e :: jsString \<times> nat. - int (snd e)"
  let ?P = "\<lambda>d. \<forall>d' \<in> set delimiters. ?sc d' \<le> ?sc d"
  have ne: "?scores \<noteq> []" by (simp add: delimiters_def)
  have "find (\<lambda>e. \<forall>y \<in> set ?scores. ?key e \<le> ?key y) ?scores = Some (hd (sort_key ?key ?scores))"
    using ne by (rule find_first_least)
  then have "map_option (\<lambda>delim. (delim, ?sc delim)) (find ?P delimiters)
      = Some (hd (sort_key ?key ?scores))"
    by (simp add: find_map_conv)
  then obtain d where d: "find ?P delimiters = Some d"
    and best: "hd (sort_key ?key ?scores) = (d, ?sc d)"
    by auto
  from d have dmax: "d \<in> set delimiters" "\<forall>d' \<in> set delimiters. ?sc d' \<le> ?sc d"
    by (auto simp: find_Some_iff)
  have zero: "(\<forall>d' \<in> set delimiters. ?sc d' = 0) \<longleftrightarrow> ?sc d = 0"
    using dmax by auto
  from ne have "sort_key ?key ?scores \<noteq> []" by (simp add: sort_key_Nil_iff)
  then obtain rest where s: "sort_key ?key ?scores = (d, ?sc d) # rest"
    using best by (cases "sort_key ?key ?scores") auto
  have "detectDelimiter content = (if ?sc d = 0 then None else Some d)"
  proof (cases "?ls = []")
    case True
    then show ?thesis by (simp add: detectDelimiter_def score_Nil)
  next
    case False
    then show ?thesis by (simp add: detectDelimiter_def Let_def s)
  qed
  with zero d show ?thesis by (simp add: length_previewLines)
qed

subsection \<open>Example values\<close>

lemma previewLines_exampleContent:
  "previewLines exampleContent
     = [str ''a@x.com:pw:SECRET|note|more'', str ''b@x.com|pw'', str ''c@x.com|pw|x'']"
  by (simp add: previewLines_def exampleContent_def split_def startsWith_def trim_def
      isSpace_def whiteSpace_def str_def)

lemma previewLines_blank:
  "previewLines ([0xA0, 0x0A, 0xA0, 0x0A, 0xA0, 0x0A] @ str ''a|b|c'') = [str ''a|b|c'']"
  by (simp add: previewLines_def split_def startsWith_def trim_def isSpace_def whiteSpace_def str_def)

lemma previewLines_tie: "previewLines (str ''a:b:c,d,e'') = [str ''a:b:c,d,e'']"
  by (simp add: previewLines_def split_def startsWith_def trim_def isSpace_def whiteSpace_def str_def)

lemma previewLines_hello: "previewLines (str ''hello'') = [str ''hello'']"
  by (simp add: previewLines_def split_def startsWith_def trim_def isSpace_def whiteSpace_def str_def)

lemma scores_exampleContent:
  "map (score [str ''a@x.com:pw:SECRET|note|more'', str ''b@x.com|pw'', str ''c@x.com|pw|x''])
     delimiters = [2, 1, 0, 0, 0, 0, 0]"
  by (simp add: score_def delimiters_def split_def str_def)

lemma scores_blank: "map (score [str ''a|b|c'']) delimiters = [1, 0, 0, 0, 0, 0, 0]"
  by (simp add: score_def delimiters_def split_def str_def)

lemma scores_tie: "map (score [str ''a:b:c,d,e'']) delimiters = [0, 1, 0, 0, 0, 0, 1]"
  by (simp add: score_def delimiters_def split_def str_def)

lemma scores_hello: "map (score [str ''hello'']) delimiters = [0, 0, 0, 0, 0, 0, 0]"
  by (simp add: score_def delimiters_def split_def str_def)

text \<open>
  Four inputs: \<open>|\<close> wins with score 2 over \<open>:\<close> with score 1, the line of a no-break
  space being blank; three lines of a no-break space do not count among the three lines
  looked at; \<open>:\<close> and the comma tie with score 1 and \<open>:\<close>, earlier in the list, is chosen;
  no candidate splits \<open>hello\<close>.
\<close>

theorem C9_witness:
  "previewLines exampleContent
     = [str ''a@x.com:pw:SECRET|note|more'', str ''b@x.com|pw'', str ''c@x.com|pw|x''] \<and>
   map (score (previewLines exampleContent)) delimiters = [2, 1, 0, 0, 0, 0, 0] \<and>
   detectDelimiter exampleContent = Some (str ''|'') \<and>
   detectDelimiter ([0xA0, 0x0A, 0xA0, 0x0A, 0xA0, 0x0A] @ str ''a|b|c'') = Some (str ''|'') \<and>
   detectDelimiter (str ''a:b:c,d,e'') = Some (str '':'') \<and>
   detectDelimiter (str ''hello'') = None"
proof -
  let ?blank = "[0xA0, 0x0A, 0xA0, 0x0A, 0xA0, 0x0A] @ str ''a|b|c''"
  have s1: "map (score (previewLines exampleContent)) delimiters = [2, 1, 0, 0, 0, 0, 0]"
    by (simp only: previewLines_exampleContent scores_exampleContent)
  have s2: "map (score (previewLines ?blank)) delimiters = [1, 0, 0, 0, 0, 0, 0]"
    by (simp only: previewLines_blank scores_blank)
  have s3: "map (score (previewLines (str ''a:b:c,d,e''))) delimiters = [0, 1, 0, 0, 0, 0, 1]"
    by (simp only: previewLines_tie scores_tie)
  have s4: "map (score (previewLines (str ''hello''))) delimiters = [0, 0, 0, 0, 0, 0, 0]"
    by (simp only: previewLines_hello scores_hello)
  have b1: "(if \<forall>d \<in> set delimiters. score (previewLines exampleContent) d = 0 then None
      else find (\<lambda>d. \<forall>d' \<in> set delimiters.
                     score (previewLines exampleContent) d' \<le> score (previewLines exampleContent) d)
             delimiters) = Some (str ''|'')"
    using s1 by (simp add: delimiters_def)
  have b2: "(if \<forall>d \<in> set delimiters. score (previewLines ?blank) d = 0 then None
      else find (\<lambda>d. \<forall>d' \<in> set delimiters.
                     score (previewLines ?blank) d' \<le> score (previewLines ?blank) d)
             delimiters) = Some (str ''|'')"
    using s2 by (simp add: delimiters_def)
  have b3: "(if \<forall>d \<in> set delimiters. score (previewLines (str ''a:b:c,d,e'')) d = 0 then None
      else find (\<lambda>d. \<forall>d' \<in> set delimiters.
                     score (previewLines (str ''a:b:c,d,e'')) d'
                       \<le> score (previewLines (str ''a:b:c,d,e'')) d)
             delimiters) = Some (str '':'')"
    using s3 by (simp add: delimiters_def)
  have b4: "(if \<forall>d \<in> set delimiters. score (previewLines (str ''hello'')) d = 0 then None
      else find (\<lambda>d. \<forall>d' \<in> set delimiters.
                     score (previewLines (str ''hello'')) d' \<le> score (previewLines (str ''hello'')) d)
             delimiters) = None"
    using s4 by (simp add: delimiters_def)
  from C9_detectDelimiter [of exampleContent] b1
  have 1: "detectDelimiter exampleContent = Some (str ''|'')" by (simp only:)
  from C9_detectDelimiter [of ?blank] b2
  have 2: "detectDelimiter ?blank = Some (str ''|'')" by (simp only:)
  from C9_detectDelimiter [of "str ''a:b:c,d,e''"] b3
  have 3: "detectDelimiter (str ''a:b:c,d,e'') = Some (str '':'')" by (simp only:)
  from C9_detectDelimiter [of "str ''hello''"] b4
  have 4: "detectDelimiter (str ''hello'') = None" by (simp only:)
  from previewLines_exampleContent s1 1 2 3 4 show ?thesis by (simp only: simp_thms)
qed

end
